theory Spec2Isabelle
  imports Main
begin


section \<open>Query objects in a store\<close>

text \<open>
  Queries are JavaScript objects that refer to each other (a query's
  \<^verbatim>\<open>_transaction\<close> is another query object, possibly itself) and to arrays
  (\<^verbatim>\<open>_tables\<close>, \<^verbatim>\<open>_columns\<close>, \<^verbatim>\<open>_transforms\<close>) that are mutated in place
  by \<^verbatim>\<open>push\<close>.  The model therefore keeps an explicit store: objects and
  arrays live in lists and a reference is an index; allocation appends.
\<close>

type_synonym ref = nat
type_synonym client = nat

text \<open>The three literals ever stored in \<^verbatim>\<open>_transactionSQLOverride\<close>.\<close>

datatype sql_override = Begin | Commit | Rollback

text \<open>
  \<^verbatim>\<open>_transactionDepth\<close> is a JavaScript number or \<^verbatim>\<open>undefined\<close>;
  \<^verbatim>\<open>undefined - 1\<close> is \<^verbatim>\<open>NaN\<close>.  Counts are integers far below the
  range where doubles lose exactness, so they are modelled as \<open>int\<close>.
\<close>

datatype jsnum = Undefined | Num int | NaN

fun falsy :: "jsnum \<Rightarrow> bool" where
  "falsy Undefined = True"
| "falsy (Num n) = (n = 0)"
| "falsy NaN = True"

fun js_add :: "jsnum \<Rightarrow> int \<Rightarrow> jsnum" where
  "js_add (Num n) k = Num (n + k)"
| "js_add Undefined k = NaN"
| "js_add NaN k = NaN"

text \<open>The class of a query, \<^verbatim>\<open>__identity__\<close>.\<close>

datatype qclass = EntryQuery | SelectQuery

text \<open>
  One query object.  \<open>clauses\<close> stands for the clause state owned by the
  mixins Where, Limit, Join, Order and GroupBy; \<open>adapter\<close> is
  \<^verbatim>\<open>_adapter\<close>.  The transaction fields are those that
  \<^verbatim>\<open>transaction.js\<close> reads and writes on the handle object;
  \<open>transactionClientPromise\<close> is \<open>None\<close> while undefined,
  \<open>Some True\<close> for a fulfilled and \<open>Some False\<close> for a rejected acquisition.
\<close>

record 'c query =
  identity :: qclass
  adapter :: nat
  tables :: "ref option"
  columns :: "ref option"
  transforms :: ref
  clauses :: 'c
  transaction :: "ref option"
  transactionSQLOverride :: "sql_override option"
  transactionDepth :: jsnum
  transactionNeedsToAcquireClient :: bool
  transactionNeedsToReleaseClient :: bool
  transactionClosed :: bool
  transactionClient :: "client option"
  transactionClientPromise :: "bool option"

text \<open>
  What the outside world sees: calls on the connection pool and statements handed
  to the driver, in order.  A statement is recorded with the override it was
  phrased from (\<open>None\<close>: the query's own statement) and the client it ran on
  (\<open>None\<close>: no transaction client, the adapter picks one itself).
\<close>

datatype event =
  Acquire "client option"
| Release "client option"
| Statement "sql_override option" "client option"

record ('r, 'c) state =
  objs :: "'c query list"
  strs :: "string list list"
  fns :: "('r \<Rightarrow> qclass \<Rightarrow> 'r) list list"
  events :: "event list"

datatype error =
  MustAssociate sql_override
| MustExecuteBegin
| CannotExecuteClosed
| MustFirstCall
| AcquireFailed
| DriverFailed

definition obj :: "('r, 'c) state \<Rightarrow> ref \<Rightarrow> 'c query" where
  "obj s r = objs s ! r"

definition upd :: "ref \<Rightarrow> ('c query \<Rightarrow> 'c query) \<Rightarrow> ('r, 'c) state \<Rightarrow> ('r, 'c) state" where
  "upd r f s = s\<lparr>objs := (objs s)[r := f (objs s ! r)]\<rparr>"

definition emit :: "event \<Rightarrow> ('r, 'c) state \<Rightarrow> ('r, 'c) state" where
  "emit e s = s\<lparr>events := events s @ [e]\<rparr>"

text \<open>
  Every reference held by an object is allocated; a select query has its
  \<^verbatim>\<open>_tables\<close> (set by \<^verbatim>\<open>SelectQuery#_create\<close>) and an entry query has
  neither \<^verbatim>\<open>_tables\<close> nor \<^verbatim>\<open>_columns\<close>.  JavaScript has no dangling
  references, so every store the program can build satisfies this.
\<close>

definition wf_query :: "('r, 'c) state \<Rightarrow> 'c query \<Rightarrow> bool" where
  "wf_query s q \<longleftrightarrow>
     transforms q < length (fns s) \<and>
     (case tables q of
        None \<Rightarrow> identity q = EntryQuery
      | Some a \<Rightarrow> identity q = SelectQuery \<and> a < length (strs s)) \<and>
     (case columns q of
        None \<Rightarrow> True
      | Some a \<Rightarrow> identity q = SelectQuery \<and> a < length (strs s)) \<and>
     (case transaction q of None \<Rightarrow> True | Some t \<Rightarrow> t < length (objs s))"

definition wf :: "('r, 'c) state \<Rightarrow> bool" where
  "wf s \<longleftrightarrow> list_all (wf_query s) (objs s)"

section \<open>Duplication\<close>

text \<open>\<^verbatim>\<open>Array.prototype.slice(0)\<close>: a new array with the same elements.\<close>

definition slice_strs :: "ref \<Rightarrow> ('r, 'c) state \<Rightarrow> ref \<times> ('r, 'c) state" where
  "slice_strs a s = (length (strs s), s\<lparr>strs := strs s @ [strs s ! a]\<rparr>)"

definition slice_fns :: "ref \<Rightarrow> ('r, 'c) state \<Rightarrow> ref \<times> ('r, 'c) state" where
  "slice_fns a s = (length (fns s), s\<lparr>fns := fns s @ [fns s ! a]\<rparr>)"

text \<open>
  Modelled from the spec: \<^verbatim>\<open>BaseQuery#_dup\<close> and \<^verbatim>\<open>BaseQuery#_take\<close>
  (\<^verbatim>\<open>lib/query/base.js\<close>) are not among the sources.  Following
  "every mutator returns a new Query Node" and "reusing everything else by
  reference", \<open>new_query\<close> allocates a new object of the original's class that
  takes the adapter and the clause state of the original; the transaction fields of
  a new object are undefined and \<^verbatim>\<open>Transform#init\<close> gives it an empty
  \<^verbatim>\<open>_transforms\<close> array of its own.
\<close>

definition new_query :: "'c query \<Rightarrow> ('r, 'c) state \<Rightarrow> ref \<times> ('r, 'c) state" where
  "new_query orig s =
     (length (objs s),
      s\<lparr>objs := objs s @
           [\<lparr>identity = identity orig, adapter = adapter orig,
             tables = None, columns = None, transforms = length (fns s),
             clauses = clauses orig, transaction = None,
             transactionSQLOverride = None, transactionDepth = Undefined,
             transactionNeedsToAcquireClient = False,
             transactionNeedsToReleaseClient = False,
             transactionClosed = False, transactionClient = None,
             transactionClientPromise = None\<rparr>],
         fns := fns s @ [[]]\<rparr>)"

text \<open>\<^verbatim>\<open>Transform#_take\<close>: \<^verbatim>\<open>this._transforms = orig._transforms.slice(0)\<close>.\<close>

definition take_transform :: "ref \<Rightarrow> ref \<Rightarrow> ('r, 'c) state \<Rightarrow> ('r, 'c) state" where
  "take_transform this orig s =
     (let (a, s1) = slice_fns (transforms (obj s orig)) s
      in upd this (\<lambda>ob. ob\<lparr>transforms := a\<rparr>) s1)"

text \<open>\<^verbatim>\<open>Transaction#_take\<close>: \<^verbatim>\<open>this._transaction = orig._transaction\<close>.\<close>

definition take_transaction :: "ref \<Rightarrow> ref \<Rightarrow> ('r, 'c) state \<Rightarrow> ('r, 'c) state" where
  "take_transaction this orig s =
     (let s1 = take_transform this orig s
      in upd this (\<lambda>ob. ob\<lparr>transaction := transaction (obj s1 orig)\<rparr>) s1)"

text \<open>
  \<^verbatim>\<open>SelectQuery#_take\<close>: \<^verbatim>\<open>_tables\<close> is sliced, \<^verbatim>\<open>_columns\<close> is sliced when
  defined (\<^verbatim>\<open>orig._columns && orig._columns.slice(0)\<close>).  A select query without
  \<^verbatim>\<open>_tables\<close> would raise a TypeError; \<open>wf\<close> excludes it.
\<close>

definition take_select :: "ref \<Rightarrow> ref \<Rightarrow> ('r, 'c) state \<Rightarrow> ('r, 'c) state" where
  "take_select this orig s =
     (let s1 = take_transaction this orig s;
          s2 = (case tables (obj s1 orig) of
                  None \<Rightarrow> s1
                | Some a \<Rightarrow> (let (a', s') = slice_strs a s1
                             in upd this (\<lambda>ob. ob\<lparr>tables := Some a'\<rparr>) s'))
      in (case columns (obj s2 orig) of
            None \<Rightarrow> s2
          | Some a \<Rightarrow> (let (a', s') = slice_strs a s2
                       in upd this (\<lambda>ob. ob\<lparr>columns := Some a'\<rparr>) s')))"

definition take :: "ref \<Rightarrow> ref \<Rightarrow> ('r, 'c) state \<Rightarrow> ('r, 'c) state" where
  "take this orig s =
     (case identity (obj s orig) of
        SelectQuery \<Rightarrow> take_select this orig s
      | EntryQuery \<Rightarrow> take_transaction this orig s)"

definition dup :: "('r, 'c) state \<Rightarrow> ref \<Rightarrow> ref \<times> ('r, 'c) state" where
  "dup s q = (let (d, s1) = new_query (obj s q) s in (d, take d q s1))"

section \<open>Transforms (\<^verbatim>\<open>mixins/transform.js\<close>)\<close>

text \<open>\<^verbatim>\<open>Array.prototype.push\<close>: the array is extended in place.\<close>

definition push_fn :: "ref \<Rightarrow> ('r \<Rightarrow> qclass \<Rightarrow> 'r) \<Rightarrow> ('r, 'c) state \<Rightarrow> ('r, 'c) state" where
  "push_fn a fn s = s\<lparr>fns := (fns s)[a := fns s ! a @ [fn]]\<rparr>"

definition push_str :: "ref \<Rightarrow> string \<Rightarrow> ('r, 'c) state \<Rightarrow> ('r, 'c) state" where
  "push_str a x s = s\<lparr>strs := (strs s)[a := strs s ! a @ [x]]\<rparr>"

definition transform ::
  "('r \<Rightarrow> qclass \<Rightarrow> 'r) \<Rightarrow> ('r, 'c) state \<Rightarrow> ref \<Rightarrow> ref \<times> ('r, 'c) state" where
  "transform fn s this =
     (let (d, s1) = dup s this
      in (d, push_fn (transforms (obj s1 d)) fn s1))"

definition applyTransforms :: "('r, 'c) state \<Rightarrow> ref \<Rightarrow> 'r \<Rightarrow> 'r" where
  "applyTransforms s q result =
     (let type = identity (obj s q)
      in foldl (\<lambda>transformed fn. fn transformed type) result
           (fns s ! transforms (obj s q)))"

section \<open>Transactions (\<^verbatim>\<open>mixins/transaction.js\<close>)\<close>

definition prepareForTransactionClientAcquire ::
  "ref \<Rightarrow> ('r, 'c) state \<Rightarrow> ('r, 'c) state" where
  "prepareForTransactionClientAcquire this s =
     (case transaction (obj s this) of
        None \<Rightarrow> s
      | Some t \<Rightarrow>
          (let s1 = (if falsy (transactionDepth (obj s t))
                     then upd t (\<lambda>ob. ob\<lparr>transactionDepth := Num 0,
                                       transactionNeedsToAcquireClient := True\<rparr>) s
                     else s)
           in upd t (\<lambda>ob. ob\<lparr>transactionDepth := js_add (transactionDepth ob) 1\<rparr>) s1))"

definition prepareForTransactionClientRelease ::
  "ref \<Rightarrow> ('r, 'c) state \<Rightarrow> ('r, 'c) state" where
  "prepareForTransactionClientRelease this s =
     (case transaction (obj s this) of
        None \<Rightarrow> s
      | Some t \<Rightarrow>
          (let s1 = (if transactionDepth (obj s t) = Num 1
                     then upd t (\<lambda>ob. ob\<lparr>transactionNeedsToReleaseClient := True,
                                       transactionClosed := True\<rparr>) s
                     else s)
           in upd t (\<lambda>ob. ob\<lparr>transactionDepth := js_add (transactionDepth ob) (- 1)\<rparr>) s1))"

text \<open>The setter form of \<^verbatim>\<open>transaction(transaction)\<close>; the argument may be undefined.\<close>

definition transaction_set ::
  "ref option \<Rightarrow> ('r, 'c) state \<Rightarrow> ref \<Rightarrow> ref \<times> ('r, 'c) state" where
  "transaction_set txn s this =
     (let sql = transactionSQLOverride (obj s this);
          (d, s1) = dup s this;
          s2 = upd d (\<lambda>ob. ob\<lparr>transaction := txn\<rparr>) s1;
          s3 = (case sql of None \<Rightarrow> s2
                | Some v \<Rightarrow> upd d (\<lambda>ob. ob\<lparr>transactionSQLOverride := Some v\<rparr>) s2);
          s4 = (if sql = Some Rollback \<or> sql = Some Commit
                then prepareForTransactionClientRelease d s3 else s3)
      in (d, s4))"

definition begin_query :: "('r, 'c) state \<Rightarrow> ref \<Rightarrow> ref \<times> ('r, 'c) state" where
  "begin_query s this =
     (let (d, s1) = dup s this;
          s2 = upd d (\<lambda>ob. ob\<lparr>transactionSQLOverride := Some Begin\<rparr>) s1;
          s3 = upd d (\<lambda>ob. ob\<lparr>transaction :=
                 (case transaction ob of Some t \<Rightarrow> Some t | None \<Rightarrow> Some d)\<rparr>) s2
      in (d, prepareForTransactionClientAcquire d s3))"

definition commit :: "('r, 'c) state \<Rightarrow> ref \<Rightarrow> ref \<times> ('r, 'c) state" where
  "commit s this =
     (let (d, s1) = dup s this;
          s2 = upd d (\<lambda>ob. ob\<lparr>transactionSQLOverride := Some Commit\<rparr>) s1
      in (d, prepareForTransactionClientRelease d s2))"

definition rollback :: "('r, 'c) state \<Rightarrow> ref \<Rightarrow> ref \<times> ('r, 'c) state" where
  "rollback s this =
     (let (d, s1) = dup s this;
          s2 = upd d (\<lambda>ob. ob\<lparr>transactionSQLOverride := Some Rollback\<rparr>) s1
      in (d, prepareForTransactionClientRelease d s2))"

text \<open>
  \<^verbatim>\<open>_validateBeforeTransactionExecution\<close>: returns \<^verbatim>\<open>true\<close> or throws; the
  branches are in the order of the source.
\<close>

definition validateBeforeTransactionExecution ::
  "('r, 'c) state \<Rightarrow> ref \<Rightarrow> error + bool" where
  "validateBeforeTransactionExecution s this =
     (let sql = transactionSQLOverride (obj s this) in
      case transaction (obj s this) of
        None \<Rightarrow>
          (case sql of
             None \<Rightarrow> Inr True
           | Some Begin \<Rightarrow> Inr True
           | Some v \<Rightarrow> Inl (MustAssociate v))
      | Some t \<Rightarrow>
          if sql = Some Begin then Inr True
          else if transactionNeedsToAcquireClient (obj s t) then Inl MustExecuteBegin
          else if transactionClosed (obj s t) \<and> sql = None then Inl CannotExecuteClosed
          else Inr True)"

text \<open>
  \<^verbatim>\<open>_beforeTransactionExecution\<close>.  \<open>acq\<close> is what the pool's
  \<^verbatim>\<open>acquireAsync\<close> gives when it is called: \<open>Some c\<close> when the promise is
  fulfilled with client \<open>c\<close>, \<open>None\<close> when it is rejected.  The result is the
  outcome of the returned promise.
\<close>

definition beforeTransactionExecution ::
  "client option \<Rightarrow> ('r, 'c) state \<Rightarrow> ref \<Rightarrow> (error + unit) \<times> ('r, 'c) state" where
  "beforeTransactionExecution acq s this =
     (case validateBeforeTransactionExecution s this of
        Inl e \<Rightarrow> (Inl e, s)
      | Inr _ \<Rightarrow>
          (case transaction (obj s this) of
             None \<Rightarrow> (Inr (), s)
           | Some t \<Rightarrow>
               if transactionNeedsToAcquireClient (obj s t) then
                 (let s1 = emit (Acquire acq) s;
                      s2 = (case acq of
                              None \<Rightarrow> s1
                            | Some c \<Rightarrow> upd t (\<lambda>ob. ob\<lparr>transactionClient := Some c\<rparr>) s1);
                      s3 = upd t (\<lambda>ob. ob\<lparr>transactionClientPromise := Some (acq \<noteq> None),
                                        transactionNeedsToAcquireClient := False\<rparr>) s2
                  in (if acq = None then Inl AcquireFailed else Inr (), s3))
               else
                 (if transactionClientPromise (obj s t) = Some False
                  then (Inl AcquireFailed, s) else (Inr (), s))))"

definition afterTransactionExecution ::
  "('r, 'c) state \<Rightarrow> ref \<Rightarrow> ('r, 'c) state" where
  "afterTransactionExecution s this =
     (case transaction (obj s this) of
        None \<Rightarrow> s
      | Some t \<Rightarrow>
          if transactionNeedsToReleaseClient (obj s t) then
            upd t (\<lambda>ob. ob\<lparr>transactionClient := None,
                          transactionNeedsToReleaseClient := False\<rparr>)
              (emit (Release (transactionClient (obj s t))) s)
          else s)"

text \<open>\<^verbatim>\<open>Transaction#client\<close>; \<open>None\<close> is the fall-through to the base class.\<close>

definition client_of :: "('r, 'c) state \<Rightarrow> ref \<Rightarrow> client option" where
  "client_of s this =
     (case transaction (obj s this) of
        None \<Rightarrow> None
      | Some t \<Rightarrow> transactionClient (obj s t))"

text \<open>
  \<^verbatim>\<open>Transaction#_statement\<close> below \<^verbatim>\<open>EntryQuery#_statement\<close>: with an override
  the statement is the adapter's phrasing of it; without one an entry query has no
  statement ("Must first call ... on query").
\<close>

definition statement :: "('r, 'c) state \<Rightarrow> ref \<Rightarrow> error + sql_override option" where
  "statement s this =
     (case transactionSQLOverride (obj s this) of
        Some v \<Rightarrow> Inr (Some v)
      | None \<Rightarrow> (if identity (obj s this) = EntryQuery then Inl MustFirstCall else Inr None))"

text \<open>
  Modelled from the spec: \<^verbatim>\<open>BaseQuery#_execute\<close> (\<^verbatim>\<open>lib/query/base.js\<close>) is not
  among the sources.  Following the driver contract "execute(sql, positionalArgs)"
  it hands the query's statement to the driver on the query's client; \<open>drv\<close> is the
  driver's answer, \<open>None\<close> for a failure.
\<close>

definition base_execute ::
  "'r option \<Rightarrow> ('r, 'c) state \<Rightarrow> ref \<Rightarrow> (error + 'r) \<times> ('r, 'c) state" where
  "base_execute drv s this =
     (case statement s this of
        Inl e \<Rightarrow> (Inl e, s)
      | Inr sql \<Rightarrow>
          (let s1 = emit (Statement sql (client_of s this)) s
           in (case drv of None \<Rightarrow> (Inl DriverFailed, s1) | Some r \<Rightarrow> (Inr r, s1))))"

text \<open>
  \<^verbatim>\<open>_execute\<close>: \<^verbatim>\<open>Transaction#_execute\<close> runs the before-hook, then the inner
  execution, then (only on success, \<^verbatim>\<open>tap\<close>) the after-hook;
  \<^verbatim>\<open>Transform#_execute\<close> applies the transforms to the result of the inner
  execution.
\<close>

definition execute ::
  "client option \<Rightarrow> 'r option \<Rightarrow> ('r, 'c) state \<Rightarrow> ref \<Rightarrow> (error + 'r) \<times> ('r, 'c) state" where
  "execute acq drv s this =
     (case beforeTransactionExecution acq s this of
        (Inl e, s1) \<Rightarrow> (Inl e, s1)
      | (Inr _, s1) \<Rightarrow>
          (case base_execute drv s1 this of
             (Inl e, s2) \<Rightarrow> (Inl e, s2)
           | (Inr r, s2) \<Rightarrow>
               (let s3 = afterTransactionExecution s2 this
                in (Inr (applyTransforms s3 this r), s3))))"

section \<open>Clause mutators and the observable state of a query\<close>

text \<open>
  Modelled from the spec: the clause mutators (\<^verbatim>\<open>where\<close>, \<^verbatim>\<open>orderBy\<close>,
  \<^verbatim>\<open>limit\<close>, \<^verbatim>\<open>offset\<close>, \<^verbatim>\<open>groupBy\<close>, \<^verbatim>\<open>join\<close>) live in mixins that
  are not among the sources.  Following "each return a duplicate with the relevant
  clause replaced", a clause mutator duplicates the query and replaces the clause
  state of the duplicate.
\<close>

definition clause_mutator ::
  "('c \<Rightarrow> 'c) \<Rightarrow> ('r, 'c) state \<Rightarrow> ref \<Rightarrow> ref \<times> ('r, 'c) state" where
  "clause_mutator g s this =
     (let (d, s1) = dup s this
      in (d, upd d (\<lambda>ob. ob\<lparr>clauses := g (clauses ob)\<rparr>) s1))"

datatype ('r, 'c) mutator =
  MTransform "'r \<Rightarrow> qclass \<Rightarrow> 'r"
| MTransaction "ref option"
| MBegin
| MCommit
| MRollback
| MClause "'c \<Rightarrow> 'c"

fun mutate :: "('r, 'c) mutator \<Rightarrow> ('r, 'c) state \<Rightarrow> ref \<Rightarrow> ref \<times> ('r, 'c) state" where
  "mutate (MTransform fn) s q = transform fn s q"
| "mutate (MTransaction txn) s q = transaction_set txn s q"
| "mutate MBegin s q = begin_query s q"
| "mutate MCommit s q = commit s q"
| "mutate MRollback s q = rollback s q"
| "mutate (MClause g) s q = clause_mutator g s q"

text \<open>
  What a query is, to its user: its class and adapter, the contents of its tables,
  columns and transforms arrays, its clause state, the transaction it is bound to and
  its statement override.  The bookkeeping fields that \<^verbatim>\<open>transaction.js\<close> keeps on
  a transaction handle are not part of it.
\<close>

record ('r, 'c) observable =
  o_identity :: qclass
  o_adapter :: nat
  o_tables :: "string list option"
  o_columns :: "string list option"
  o_transforms :: "('r \<Rightarrow> qclass \<Rightarrow> 'r) list"
  o_clauses :: 'c
  o_transaction :: "ref option"
  o_override :: "sql_override option"

definition observe :: "('r, 'c) state \<Rightarrow> ref \<Rightarrow> ('r, 'c) observable" where
  "observe s q =
     (let ob = obj s q in
      \<lparr>o_identity = identity ob, o_adapter = adapter ob,
       o_tables = map_option (\<lambda>a. strs s ! a) (tables ob),
       o_columns = map_option (\<lambda>a. strs s ! a) (columns ob),
       o_transforms = fns s ! transforms ob,
       o_clauses = clauses ob,
       o_transaction = transaction ob,
       o_override = transactionSQLOverride ob\<rparr>)"

text \<open>The arrays an object refers to.\<close>

definition fn_arrays :: "'c query \<Rightarrow> ref set" where
  "fn_arrays ob = {transforms ob}"

definition str_arrays :: "'c query \<Rightarrow> ref set" where
  "str_arrays ob = set_option (tables ob) \<union> set_option (columns ob)"

section \<open>Scenarios\<close>

text \<open>\<^verbatim>\<open>q.transform(f1).transform(f2)...\<close>\<close>

fun transform_all ::
  "('r \<Rightarrow> qclass \<Rightarrow> 'r) list \<Rightarrow> ('r, 'c) state \<Rightarrow> ref \<Rightarrow> ref \<times> ('r, 'c) state" where
  "transform_all [] s q = (q, s)"
| "transform_all (fn # rest) s q = (let (d, s1) = transform fn s q in transform_all rest s1 d)"

text \<open>
  \<^verbatim>\<open>begin(); begin(); commit(); commit()\<close> on one handle.  The handle
  \<^verbatim>\<open>txn = q.begin()\<close> is built first.  Then \<^verbatim>\<open>txn.begin()\<close>, \<^verbatim>\<open>txn.commit()\<close>
  and \<^verbatim>\<open>txn.commit()\<close> are built, in this order, and \<^verbatim>\<open>txn\<close> and these three
  queries are executed, in this order.  A schedule, a list of steps, says how the
  builds and the executions interleave: \<open>Build\<close> builds the next query from the
  handle, \<open>Execute\<close> executes the oldest query that is built and not yet executed.

  \<open>run_steps\<close> runs a schedule: \<open>bs\<close> are the overrides of the queries still to
  build, \<open>qs\<close> the queries that wait for their execution, and \<open>io\<close> gives for
  each execution what the pool would answer if asked and the driver's result.  The
  run is \<open>None\<close> when the schedule does not fit (it executes a query that is not
  built, or leaves something undone).
\<close>

datatype step = Build | Execute

definition build_on :: "sql_override \<Rightarrow> ('r, 'c) state \<Rightarrow> ref \<Rightarrow> ref \<times> ('r, 'c) state" where
  "build_on v s this =
     (case v of Begin \<Rightarrow> begin_query s this | Commit \<Rightarrow> commit s this
      | Rollback \<Rightarrow> rollback s this)"

fun run_steps ::
  "step list \<Rightarrow> ref \<Rightarrow> sql_override list \<Rightarrow> ref list \<Rightarrow> (client option \<times> 'r) list \<Rightarrow>
   ('r, 'c) state \<Rightarrow> ((error + 'r) list \<times> ('r, 'c) state) option" where
  "run_steps [] txn bs qs io s = (if bs = [] \<and> qs = [] \<and> io = [] then Some ([], s) else None)"
| "run_steps (Build # st) txn (b # bs) qs io s =
     run_steps st txn bs (qs @ [fst (build_on b s txn)]) io (snd (build_on b s txn))"
| "run_steps (Build # st) txn [] qs io s = None"
| "run_steps (Execute # st) txn bs (p # qs) (ar # io) s =
     map_option (\<lambda>res. (fst (execute (fst ar) (Some (snd ar)) s p) # fst res, snd res))
       (run_steps st txn bs qs io (snd (execute (fst ar) (Some (snd ar)) s p)))"
| "run_steps (Execute # st) txn bs [] io s = None"
| "run_steps (Execute # st) txn bs (p # qs) [] s = None"

definition transaction_chain ::
  "step list \<Rightarrow> (client option \<times> 'r) list \<Rightarrow> ('r, 'c) state \<Rightarrow> ref \<Rightarrow>
   ((error + 'r) list \<times> ('r, 'c) state) option" where
  "transaction_chain steps io s q =
     run_steps steps (fst (begin_query s q)) [Begin, Commit, Commit] [fst (begin_query s q)] io
       (snd (begin_query s q))"

text \<open>
  A schedule is admissible when it builds each of the \<open>left\<close> queries still to
  build, and executes each query after its build: \<open>waiting\<close> counts the queries
  that are built and not yet executed.
\<close>

fun admissible :: "step list \<Rightarrow> nat \<Rightarrow> nat \<Rightarrow> bool" where
  "admissible [] waiting left = (waiting = 0 \<and> left = 0)"
| "admissible (Build # st) waiting left = (0 < left \<and> admissible st (Suc waiting) (left - 1))"
| "admissible (Execute # st) waiting left = (0 < waiting \<and> admissible st (waiting - 1) left)"

text \<open>Concrete stores used to exercise the theorems.\<close>

definition blank_query :: "qclass \<Rightarrow> ref \<Rightarrow> unit query" where
  "blank_query k a =
     \<lparr>identity = k, adapter = 0, tables = None, columns = None, transforms = a,
      clauses = (), transaction = None, transactionSQLOverride = None,
      transactionDepth = Undefined, transactionNeedsToAcquireClient = False,
      transactionNeedsToReleaseClient = False, transactionClosed = False,
      transactionClient = None, transactionClientPromise = None\<rparr>"

text \<open>\<^verbatim>\<open>db.query\<close>: one entry query without transforms.\<close>

definition entry_store :: "(nat, unit) state" where
  "entry_store = \<lparr>objs = [blank_query EntryQuery 0], strs = [], fns = [[]], events = []\<rparr>"

text \<open>
  \<^verbatim>\<open>select('people', ['firstName', 'lastName']).transform(fn)\<close> with
  \<^verbatim>\<open>fn\<close> adding one to the result.
\<close>

definition select_store :: "(nat, unit) state" where
  "select_store =
     \<lparr>objs = [(blank_query SelectQuery 0)\<lparr>tables := Some 0, columns := Some 1\<rparr>],
      strs = [[''people''], [''firstName'', ''lastName'']],
      fns = [[\<lambda>r _. r + 1]], events = []\<rparr>"

text \<open>The store after \<^verbatim>\<open>txn = db.query.begin()\<close>; \<open>txn\<close> is object 1.\<close>

definition begun_store :: "(nat, unit) state" where
  "begun_store = snd (begin_query entry_store 0)"

text \<open>
  \<^verbatim>\<open>txn\<close> is executed on client 7; \<^verbatim>\<open>txn.begin()\<close> (object 2) is built but
  not executed; \<^verbatim>\<open>txn.commit()\<close> (object 3) is built and executed; a second
  \<^verbatim>\<open>txn.commit()\<close> (object 4) is built and executed, which closes the handle
  and releases the client.
\<close>

definition late_begin_store :: "(nat, unit) state" where
  "late_begin_store =
     (let s1 = snd (execute (Some 7) (Some 0) begun_store 1);
          s2 = snd (begin_query s1 1);
          s3 = snd (commit s2 1);
          s4 = snd (execute None (Some 0) s3 3);
          s5 = snd (commit s4 1)
      in snd (execute None (Some 0) s5 4))"

section \<open>Closed forms used in the proofs\<close>

text \<open>
  The definitions of this section are not code: they name the object and the arrays
  that a duplication allocates, and the effect of the two \<^verbatim>\<open>_prepareFor...\<close>
  functions on the handle, so that the lemmas below can state what the functions
  above compute.
\<close>

definition dup_obj :: "('r, 'c) state \<Rightarrow> 'c query \<Rightarrow> 'c query" where
  "dup_obj s orig =
     \<lparr>identity = identity orig, adapter = adapter orig,
      tables = map_option (\<lambda>_. length (strs s)) (tables orig),
      columns = map_option (\<lambda>_. length (strs s) + (case tables orig of None \<Rightarrow> 0 | Some _ \<Rightarrow> 1)) (columns orig),
      transforms = Suc (length (fns s)),
      clauses = clauses orig, transaction = transaction orig,
      transactionSQLOverride = None, transactionDepth = Undefined,
      transactionNeedsToAcquireClient = False,
      transactionNeedsToReleaseClient = False,
      transactionClosed = False, transactionClient = None,
      transactionClientPromise = None\<rparr>"

definition dup_strs :: "('r, 'c) state \<Rightarrow> 'c query \<Rightarrow> string list list" where
  "dup_strs s orig =
     (case tables orig of None \<Rightarrow> [] | Some a \<Rightarrow> [strs s ! a]) @
     (case columns orig of None \<Rightarrow> [] | Some a \<Rightarrow> [strs s ! a])"

definition acquire_prep :: "'c query \<Rightarrow> 'c query" where
  "acquire_prep ob =
     (if falsy (transactionDepth ob)
      then ob\<lparr>transactionDepth := Num 1, transactionNeedsToAcquireClient := True\<rparr>
      else ob\<lparr>transactionDepth := js_add (transactionDepth ob) 1\<rparr>)"

definition release_prep :: "'c query \<Rightarrow> 'c query" where
  "release_prep ob =
     (if transactionDepth ob = Num 1
      then ob\<lparr>transactionDepth := Num 0, transactionNeedsToReleaseClient := True,
              transactionClosed := True\<rparr>
      else ob\<lparr>transactionDepth := js_add (transactionDepth ob) (- 1)\<rparr>)"

definition same_refs :: "'c query \<Rightarrow> 'c query \<Rightarrow> bool" where
  "same_refs a b \<longleftrightarrow> identity a = identity b \<and> tables a = tables b \<and> columns a = columns b \<and>
      transforms a = transforms b"

definition alloc_dup :: "('c query \<Rightarrow> 'c query) \<Rightarrow> ('r, 'c) state \<Rightarrow> ref \<Rightarrow> ('r, 'c) state" where
  "alloc_dup g s q =
     s\<lparr>objs := objs s @ [g (dup_obj s (objs s ! q))],
       strs := strs s @ dup_strs s (objs s ! q),
       fns := fns s @ [[], fns s ! transforms (objs s ! q)]\<rparr>"

definition bookkeeping :: "('c query \<Rightarrow> 'c query) \<Rightarrow> bool" where
  "bookkeeping f \<longleftrightarrow> (\<forall>ob. same_refs (f ob) ob \<and> transaction (f ob) = transaction ob \<and>
      transactionSQLOverride (f ob) = transactionSQLOverride ob \<and>
      clauses (f ob) = clauses ob \<and> adapter (f ob) = adapter ob)"

text \<open>
  \<open>preserved s s'\<close>: the store \<open>s'\<close> still holds every object and every array
  of \<open>s\<close>, each object with the fields that \<open>observe\<close> reads and each array with
  its contents.
\<close>

definition preserved :: "('r, 'c) state \<Rightarrow> ('r, 'c) state \<Rightarrow> bool" where
  "preserved s s' \<longleftrightarrow>
     length (objs s) \<le> length (objs s') \<and>
     length (fns s) \<le> length (fns s') \<and>
     length (strs s) \<le> length (strs s') \<and>
     (\<forall>p < length (objs s).
        same_refs (obj s' p) (obj s p) \<and> adapter (obj s' p) = adapter (obj s p) \<and>
        clauses (obj s' p) = clauses (obj s p) \<and>
        transaction (obj s' p) = transaction (obj s p) \<and>
        transactionSQLOverride (obj s' p) = transactionSQLOverride (obj s p)) \<and>
     (\<forall>a < length (fns s). fns s' ! a = fns s ! a) \<and>
     (\<forall>a < length (strs s). strs s' ! a = strs s ! a)"

text \<open>
  The bookkeeping fields of a handle, and what the builds and the executions of the
  queries bound to it do to them and to the event log: an abstract run of a schedule,
  which the run on the store refines.
\<close>

record bk =
  b_depth :: jsnum
  b_acquire :: bool
  b_release :: bool
  b_closed :: bool
  b_client :: "client option"
  b_promise :: "bool option"

definition bk_of :: "'c query \<Rightarrow> bk" where
  "bk_of ob = \<lparr>b_depth = transactionDepth ob, b_acquire = transactionNeedsToAcquireClient ob,
     b_release = transactionNeedsToReleaseClient ob, b_closed = transactionClosed ob,
     b_client = transactionClient ob, b_promise = transactionClientPromise ob\<rparr>"

definition abs_build :: "sql_override \<Rightarrow> bk \<Rightarrow> bk" where
  "abs_build v k =
     (if v = Begin then
        (if falsy (b_depth k) then k\<lparr>b_depth := Num 1, b_acquire := True\<rparr>
         else k\<lparr>b_depth := js_add (b_depth k) 1\<rparr>)
      else
        (if b_depth k = Num 1 then k\<lparr>b_depth := Num 0, b_release := True, b_closed := True\<rparr>
         else k\<lparr>b_depth := js_add (b_depth k) (- 1)\<rparr>))"

definition abs_exec ::
  "client option \<Rightarrow> sql_override \<Rightarrow> bk \<times> event list \<Rightarrow> (bk \<times> event list) option" where
  "abs_exec a v st =
     (let k = fst st; ev = snd st in
      if b_acquire k then
        (case a of
           None \<Rightarrow> None
         | Some c \<Rightarrow>
             if v = Begin then
               Some (k\<lparr>b_client := (if b_release k then None else Some c),
                       b_promise := Some True, b_acquire := False, b_release := False\<rparr>,
                     ev @ [Acquire (Some c), Statement (Some v) (Some c)] @
                       (if b_release k then [Release (Some c)] else []))
             else None)
      else if b_promise k = Some False then None
      else
        Some (k\<lparr>b_client := (if b_release k then None else b_client k),
                b_release := False\<rparr>,
              ev @ [Statement (Some v) (b_client k)] @
                (if b_release k then [Release (b_client k)] else [])))"

fun abs_run ::
  "step list \<Rightarrow> sql_override list \<Rightarrow> sql_override list \<Rightarrow> client option list \<Rightarrow>
   bk \<times> event list \<Rightarrow> (bk \<times> event list) option" where
  "abs_run [] bs vs as st = (if bs = [] \<and> vs = [] \<and> as = [] then Some st else None)"
| "abs_run (Build # w) (b # bs) vs as st = abs_run w bs (vs @ [b]) as (abs_build b (fst st), snd st)"
| "abs_run (Build # w) [] vs as st = None"
| "abs_run (Execute # w) bs (v # vs) (a # as) st =
     (case abs_exec a v st of None \<Rightarrow> None | Some st' \<Rightarrow> abs_run w bs vs as st')"
| "abs_run (Execute # w) bs [] as st = None"
| "abs_run (Execute # w) bs (v # vs) [] st = None"

text \<open>
  \<open>bound_to txn A s p v\<close>: in store \<open>s\<close>, \<open>p\<close> is a query bound to the handle
  \<open>txn\<close> with override \<open>v\<close>, and its transforms compute \<open>A\<close>.
\<close>

definition bound_to ::
  "ref \<Rightarrow> ('r \<Rightarrow> 'r) \<Rightarrow> ('r, 'c) state \<Rightarrow> ref \<Rightarrow> sql_override \<Rightarrow> bool" where
  "bound_to txn A s p v \<longleftrightarrow>
     p < length (objs s) \<and> transaction (obj s p) = Some txn \<and>
     transactionSQLOverride (obj s p) = Some v \<and> (\<forall>r. applyTransforms s p r = A r)"

text \<open>All schedules of a given length, and the admissible ones of the chain.\<close>

fun words :: "nat \<Rightarrow> step list list" where
  "words 0 = [[]]"
| "words (Suc n) = map ((#) Build) (words n) @ map ((#) Execute) (words n)"

definition schedules :: "step list list" where
  "schedules = filter (\<lambda>w. admissible w 1 3) (words 7)"

section \<open>Join aliases and implicit grouping\<close>

text \<open>
  The join mixin and the model query that resolve relation paths are not among the
  sources; their behaviour is pinned down by the spec and by the expectations of the
  relation tests (the self-join tests and the \<^verbatim>\<open>hasMany\<close> join tests).  The
  definitions of this section are a model of them.
\<close>

datatype kind = ToOne | ToMany

record relation =
  r_name :: string
  r_kind :: kind
  r_target :: string

record model =
  m_name :: string
  m_table :: string
  m_relations :: "relation list"

type_synonym schema = "model list"

record join =
  j_path :: "string list"
  j_table :: string
  j_alias :: string

text \<open>
  A model query: the primary entity, the joins in the order of their creation,
  whether the projection is an aggregate, and whether the query is grouped by the
  primary key of the primary entity.
\<close>

record mquery =
  q_model :: model
  q_joins :: "join list"
  q_aggregate :: bool
  q_group_by :: bool

datatype join_error =
  NoSuchRelation string string "string list"
| NoSuchModel string

text \<open>Decimal rendering of a number, for the suffixes \<^verbatim>\<open>_j1\<close>, \<^verbatim>\<open>_j2\<close>, ...\<close>

definition digit_char :: "nat \<Rightarrow> char" where
  "digit_char n = char_of (48 + n)"

function show_nat :: "nat \<Rightarrow> string" where
  "show_nat n = (if n < 10 then [digit_char n] else show_nat (n div 10) @ [digit_char (n mod 10)])"
  by pat_completeness auto
termination
  by (relation "measure (\<lambda>n. n)") auto

definition suffixed :: "string \<Rightarrow> nat \<Rightarrow> string" where
  "suffixed name n = (if n = 0 then name else name @ ''_j'' @ show_nat n)"

text \<open>
  Modelled from the spec: the alias generator of the join resolver.  "First
  occurrence of a relation name uses the bare relation name as alias; a later join
  to the same underlying table via a different path gets a suffix (\<^verbatim>\<open>_j1\<close>,
  \<^verbatim>\<open>_j2\<close>, ...) assigned in path-first-encountered order.  Self-referential
  relations (entity joined to itself) always require aliasing, even on first use, to
  avoid colliding with the primary table name."

  \<open>in_use\<close> are the names an alias must differ from: the primary table name and the
  aliases of the joins made so far.  A new join gets a suffix when its relation name
  is in use or when a join made earlier already reaches its table; the suffix is the
  first of \<^verbatim>\<open>_j1\<close>, \<^verbatim>\<open>_j2\<close>, ... that gives a name not in use (among
  \<open>length used + 1\<close> candidates one is free).  Otherwise the alias is the bare
  relation name.  The primary table is no join: the self-join tests expect
  \<^verbatim>\<open>INNER JOIN "employees" "manager"\<close> for the first join of
  \<^verbatim>\<open>Employee\<close> through \<^verbatim>\<open>manager\<close>, and \<^verbatim>\<open>"nodes" "nodes_j1"\<close> for the first
  join of \<^verbatim>\<open>Node\<close> through \<^verbatim>\<open>nodes\<close>.
\<close>

definition in_use :: "string \<Rightarrow> join list \<Rightarrow> string list" where
  "in_use tbl js = tbl # map j_alias js"

definition suffixed_alias :: "string list \<Rightarrow> string \<Rightarrow> string" where
  "suffixed_alias used name =
     (case find (\<lambda>a. a \<notin> set used)
             (map (\<lambda>n. suffixed name (Suc n)) [0 ..< Suc (length used)]) of
        Some a \<Rightarrow> a
      | None \<Rightarrow> suffixed name (Suc (Suc (length used))))"

definition join_alias :: "string \<Rightarrow> join list \<Rightarrow> string \<Rightarrow> string \<Rightarrow> string" where
  "join_alias tbl js name target =
     (if name \<in> set (in_use tbl js) \<or> target \<in> set (map j_table js)
      then suffixed_alias (in_use tbl js) name
      else name)"

text \<open>
  Modelled from the spec: "walk segments from the query's primary entity type,
  resolving each to a Relation Descriptor; fail with a descriptive error naming the
  unknown segment and the entity type it was sought on".
\<close>

fun resolve :: "schema \<Rightarrow> model \<Rightarrow> string list \<Rightarrow> join_error + (relation \<times> model) list" where
  "resolve sch m [] = Inr []"
| "resolve sch m (seg # rest) =
     (case find (\<lambda>r. r_name r = seg) (m_relations m) of
        None \<Rightarrow> Inl (NoSuchRelation seg (m_name m) (map r_name (m_relations m)))
      | Some r \<Rightarrow>
          (case find (\<lambda>m'. m_name m' = r_target r) sch of
             None \<Rightarrow> Inl (NoSuchModel (r_target r))
           | Some m' \<Rightarrow>
               (case resolve sch m' rest of
                  Inl e \<Rightarrow> Inl e
                | Inr rs \<Rightarrow> Inr ((r, m') # rs))))"

text \<open>
  Modelled from the spec: "for each resolved path prefix, assign a join: reuse an
  existing join if an identical path prefix was already joined; otherwise create one
  with a deterministic alias".
\<close>

fun add_joins :: "string \<Rightarrow> string list \<Rightarrow> (relation \<times> model) list \<Rightarrow> join list \<Rightarrow> join list" where
  "add_joins tbl pre [] js = js"
| "add_joins tbl pre ((r, m) # rest) js =
     (let p = pre @ [r_name r];
          js' = (if p \<in> set (map j_path js) then js
                 else js @ [\<lparr>j_path = p, j_table = m_table m,
                              j_alias = join_alias tbl js (r_name r) (m_table m)\<rparr>])
      in add_joins tbl p rest js')"

text \<open>
  Modelled from the spec: an explicit \<^verbatim>\<open>join(relationPath)\<close> "only add[s] the
  JOIN, not the GROUP BY".
\<close>

definition join_path :: "schema \<Rightarrow> string list \<Rightarrow> mquery \<Rightarrow> join_error + mquery" where
  "join_path sch path q =
     (case resolve sch (q_model q) path of
        Inl e \<Rightarrow> Inl e
      | Inr rs \<Rightarrow> Inr (q\<lparr>q_joins := add_joins (m_table (q_model q)) [] rs (q_joins q)\<rparr>))"

text \<open>
  Modelled from the spec: a field reference in a condition or an ordering, with
  relation path \<open>path\<close> (empty for an attribute of the primary entity).
  "Referencing a relation path anywhere in conditions or ordering implicitly adds
  the necessary inner join(s) and, for non-aggregate projections, groups the primary
  query by its own primary key".  The tests fix two points: a reference to a path
  that an explicit \<^verbatim>\<open>join\<close> has already joined adds neither join nor grouping
  (\<^verbatim>\<open>Node.objects.join('nodes').where({ 'nodes.pk': 1 })\<close>), and a reference
  through a \<^verbatim>\<open>belongsTo\<close> relation is grouped like one through \<^verbatim>\<open>hasMany\<close>
  (\<^verbatim>\<open>Employee.objects.where({ 'manager.id': 1 })\<close>).
\<close>

definition reference :: "schema \<Rightarrow> string list \<Rightarrow> mquery \<Rightarrow> join_error + mquery" where
  "reference sch path q =
     (if path = [] then Inr q
      else case resolve sch (q_model q) path of
        Inl e \<Rightarrow> Inl e
      | Inr rs \<Rightarrow>
          (if path \<in> set (map j_path (q_joins q)) then Inr q
           else Inr (q\<lparr>q_joins := add_joins (m_table (q_model q)) [] rs (q_joins q),
                       q_group_by := q_group_by q \<or> \<not> q_aggregate q\<rparr>)))"

text \<open>
  Modelled from the spec: the mutators of a model query that name relation paths,
  "\<^verbatim>\<open>where(conditions)\<close>, \<^verbatim>\<open>orderBy(spec)\<close>, [...]
  \<^verbatim>\<open>join(relationPath[, conditionOverride])\<close>": an explicit join, and a condition
  or an ordering on a field with relation path \<open>path\<close>.  \<open>build\<close> applies a chain
  of them to a query, and stops at the first error.
\<close>

datatype clause = Join "string list" | Where "string list" | OrderBy "string list"

definition apply_clause :: "schema \<Rightarrow> clause \<Rightarrow> mquery \<Rightarrow> join_error + mquery" where
  "apply_clause sch c q =
     (case c of
        Join path \<Rightarrow> join_path sch path q
      | Where path \<Rightarrow> reference sch path q
      | OrderBy path \<Rightarrow> reference sch path q)"

fun build :: "schema \<Rightarrow> clause list \<Rightarrow> mquery \<Rightarrow> join_error + mquery" where
  "build sch [] q = Inr q"
| "build sch (c # cs) q =
     (case apply_clause sch c q of
        Inl e \<Rightarrow> Inl e
      | Inr q' \<Rightarrow> build sch cs q')"


fun referenced :: "clause \<Rightarrow> string list option" where
  "referenced (Join path) = None"
| "referenced (Where path) = Some path"
| "referenced (OrderBy path) = Some path"

text \<open>\<^verbatim>\<open>Model.objects\<close>: the query of a model, without joins; it selects rows.\<close>

definition objects :: "model \<Rightarrow> mquery" where
  "objects m = \<lparr>q_model = m, q_joins = [], q_aggregate = False, q_group_by = False\<rparr>"

text \<open>The models of the self-join tests and of the \<^verbatim>\<open>hasMany\<close> tests.\<close>

definition employee :: model where
  "employee = \<lparr>m_name = ''employee'', m_table = ''employees'',
     m_relations = [\<lparr>r_name = ''subordinates'', r_kind = ToMany, r_target = ''employee''\<rparr>,
                    \<lparr>r_name = ''manager'', r_kind = ToOne, r_target = ''employee''\<rparr>]\<rparr>"

definition node :: model where
  "node = \<lparr>m_name = ''node'', m_table = ''nodes'',
     m_relations = [\<lparr>r_name = ''parent'', r_kind = ToOne, r_target = ''node''\<rparr>,
                    \<lparr>r_name = ''nodes'', r_kind = ToMany, r_target = ''node''\<rparr>]\<rparr>"

definition user :: model where
  "user = \<lparr>m_name = ''user'', m_table = ''users'',
     m_relations = [\<lparr>r_name = ''articles'', r_kind = ToMany, r_target = ''article''\<rparr>]\<rparr>"

definition article :: model where
  "article = \<lparr>m_name = ''article'', m_table = ''articles'', m_relations = []\<rparr>"

definition test_schema :: schema where
  "test_schema = [employee, node, user, article]"


section \<open>To-many relations: in-flight changes and collection caches\<close>

text \<open>
  The relation classes (\<^verbatim>\<open>hasMany\<close>, \<^verbatim>\<open>belongsTo\<close>) and the model class are not
  among the sources; only their tests are.  The definitions of this section are a
  model of them, from the spec and from what the tests expect.

  A related instance is represented by its key; equality of these values stands for
  the identity of the JavaScript objects.  The attributes of an instance and the
  slots and caches of its own relations (the inverse side among them) are not part
  of the model: the claims are about the collection cache and the in-flight change
  that the owner holds for the relation.
\<close>

type_synonym key = nat

datatype inst = Inst (inst_key: key)

text \<open>The \<^verbatim>\<open>{ clear, add, remove }\<close> object that \<^verbatim>\<open>_getInFlightData\<close> returns.\<close>

record in_flight =
  clear :: bool
  add :: "inst list"
  remove :: "inst list"

definition no_in_flight :: in_flight where
  "no_in_flight = \<lparr>clear = False, add = [], remove = []\<rparr>"

text \<open>An owning instance, with one to-many relation.\<close>

record owner =
  owner_key :: key
  relation_name :: string
  cache :: "inst list option"
  pending :: in_flight

datatype rel_error = NotYetLoaded string | FlushFailed

text \<open>The storage statements of a flush, with the owner's key and the related keys.\<close>

datatype stmt =
  ClearRelated key
| AddRelated key "key list"
| RemoveRelated key "key list"

text \<open>
  Modelled from the spec: "Mutating helpers (\<^verbatim>\<open>add\<close>, \<^verbatim>\<open>remove\<close>, \<^verbatim>\<open>clear\<close>) on a
  to-many relation do not execute immediately; they accumulate an In-Flight Relation
  Change for the owner, update the collection cache optimistically".  An add cancels
  a pending remove of the same instance and the other way round, as the test
  "processes a complex sequence using add, remove, and clear" expects.
\<close>

definition add_object :: "inst \<Rightarrow> owner \<Rightarrow> owner" where
  "add_object x ow =
     (let p = pending ow;
          p' = (if x \<in> set (remove p) then p\<lparr>remove := removeAll x (remove p)\<rparr>
                else if x \<in> set (add p) then p
                else p\<lparr>add := add p @ [x]\<rparr>)
      in ow\<lparr>pending := p',
            cache := map_option (\<lambda>c. if x \<in> set c then c else c @ [x]) (cache ow)\<rparr>)"

definition remove_object :: "inst \<Rightarrow> owner \<Rightarrow> owner" where
  "remove_object x ow =
     (let p = pending ow;
          p' = (if x \<in> set (add p) then p\<lparr>add := removeAll x (add p)\<rparr>
                else if x \<in> set (remove p) then p
                else p\<lparr>remove := remove p @ [x]\<rparr>)
      in ow\<lparr>pending := p', cache := map_option (removeAll x) (cache ow)\<rparr>)"

definition add_objects :: "inst list \<Rightarrow> owner \<Rightarrow> owner" where
  "add_objects xs ow = fold add_object xs ow"

definition remove_objects :: "inst list \<Rightarrow> owner \<Rightarrow> owner" where
  "remove_objects xs ow = fold remove_object xs ow"

text \<open>
  Modelled from the spec: "a \<^verbatim>\<open>clear\<close> flush discards prior add/remove intent
  recorded before it [...] but does not suppress add/remove intent recorded after
  it".
\<close>

definition clear_objects :: "owner \<Rightarrow> owner" where
  "clear_objects ow =
     ow\<lparr>pending := \<lparr>clear = True, add = [], remove = []\<rparr>,
        cache := map_option (\<lambda>_. []) (cache ow)\<rparr>"

text \<open>
  Modelled from the spec: the statements of a flush, the clear first, then one batch
  per direction.
\<close>

definition flush :: "owner \<Rightarrow> stmt list" where
  "flush ow =
     (let p = pending ow in
      (if clear p then [ClearRelated (owner_key ow)] else []) @
      (if add p = [] then [] else [AddRelated (owner_key ow) (map inst_key (add p))]) @
      (if remove p = [] then [] else [RemoveRelated (owner_key ow) (map inst_key (remove p))]))"

text \<open>
  The storage decides for each statement whether it succeeds (\<open>exec\<close>).  The result
  is the list of statements issued, up to and including the first that fails, and
  whether all succeeded.
\<close>

fun run_statements :: "(stmt \<Rightarrow> bool) \<Rightarrow> stmt list \<Rightarrow> stmt list \<times> bool" where
  "run_statements exec [] = ([], True)"
| "run_statements exec (st # rest) =
     (if exec st
      then (let (issued, ok) = run_statements exec rest in (st # issued, ok))
      else ([st], False))"

text \<open>
  Modelled from the spec: "after a successful flush, the In-Flight Relation Change
  resets to empty; after a failed flush, it is left intact so a retry reissues the
  same operations".
\<close>

definition save :: "(stmt \<Rightarrow> bool) \<Rightarrow> owner \<Rightarrow> (rel_error + unit) \<times> stmt list \<times> owner" where
  "save exec ow =
     (let (issued, ok) = run_statements exec (flush ow)
      in if ok then (Inr (), issued, ow\<lparr>pending := no_in_flight\<rparr>)
         else (Inl FlushFailed, issued, ow))"

text \<open>
  Modelled from the spec: "Collection-cache access on an unloaded relation fails
  with a descriptive "not yet loaded" error; access after [...] succeeds and
  returns the cached ordered sequence".  The error names the relation.
\<close>

definition access_cache :: "string \<Rightarrow> inst list option \<Rightarrow> rel_error + inst list" where
  "access_cache name c = (case c of None \<Rightarrow> Inl (NotYetLoaded name) | Some xs \<Rightarrow> Inr xs)"

definition access :: "owner \<Rightarrow> rel_error + inst list" where
  "access ow = access_cache (relation_name ow) (cache ow)"

text \<open>
  The rows of the follow-up query: the key of a related row and its foreign key, in
  result order.  \<open>related_of rows k\<close> are the instances made from the rows that
  refer to the owner with key \<open>k\<close>.
\<close>

definition related_of :: "(key \<times> key) list \<Rightarrow> key \<Rightarrow> inst list" where
  "related_of rows k = map (\<lambda>(x, fk). Inst x) (filter (\<lambda>(x, fk). fk = k) rows)"

text \<open>An instance as a plain fetch or \<^verbatim>\<open>fresh\<close> makes it: nothing cached, nothing pending.\<close>

definition load :: "key \<Rightarrow> string \<Rightarrow> owner" where
  "load k name = \<lparr>owner_key = k, relation_name = name, cache = None, pending = no_in_flight\<rparr>"

text \<open>
  Modelled from the spec: the fetch of the owner's relation query
  (\<^verbatim>\<open>articleObjects.fetch()\<close>) and the eager load (\<^verbatim>\<open>with(relation)\<close>), which
  "issues one follow-up query per distinct relation level [...] then walks the
  follow-up results and attaches each related instance to its owner's collection
  cache"; "an owner with zero related rows must still end up with an empty (not
  missing) cached collection".
\<close>

definition fetch_relation :: "(key \<times> key) list \<Rightarrow> owner \<Rightarrow> owner" where
  "fetch_relation rows ow = ow\<lparr>cache := Some (related_of rows (owner_key ow))\<rparr>"

definition eager_load :: "(key \<times> key) list \<Rightarrow> owner list \<Rightarrow> owner list" where
  "eager_load rows owners = map (fetch_relation rows) owners"


section \<open>Lemmas about the store\<close>

lemma dup_eq:
  assumes "wf_query s (objs s ! q)" "q < length (objs s)"
  shows "dup s q = (length (objs s),
           s\<lparr>objs := objs s @ [dup_obj s (objs s ! q)],
             strs := strs s @ dup_strs s (objs s ! q),
             fns := fns s @ [[], fns s ! transforms (objs s ! q)]\<rparr>)"
proof (cases "identity (objs s ! q)")
  case EntryQuery
  with assms have "tables (objs s ! q) = None" "columns (objs s ! q) = None"
    by (auto simp: wf_query_def split: option.splits)
  with EntryQuery assms show ?thesis
    by (simp add: dup_def new_query_def take_def take_transaction_def take_transform_def
      slice_fns_def upd_def obj_def nth_append dup_obj_def dup_strs_def wf_query_def)
next
  case SelectQuery
  with assms obtain a where a: "tables (objs s ! q) = Some a" "a < length (strs s)"
    by (auto simp: wf_query_def split: option.splits)
  show ?thesis
  proof (cases "columns (objs s ! q)")
    case None
    with a SelectQuery assms show ?thesis
    by (simp add: dup_def new_query_def take_def take_select_def take_transaction_def take_transform_def
      slice_fns_def slice_strs_def upd_def obj_def nth_append dup_obj_def dup_strs_def wf_query_def)
  next
    case (Some c)
    with assms have "c < length (strs s)" by (auto simp: wf_query_def split: option.splits)
    with Some a SelectQuery assms show ?thesis
    by (simp add: dup_def new_query_def take_def take_select_def take_transaction_def take_transform_def
      slice_fns_def slice_strs_def upd_def obj_def nth_append dup_obj_def dup_strs_def wf_query_def)
  qed
qed

lemma wf_nth: "wf s \<Longrightarrow> q < length (objs s) \<Longrightarrow> wf_query s (objs s ! q)"
  by (simp add: wf_def list_all_length)

lemma wf_query_mono:
  assumes "wf_query s ob" "length (fns s) \<le> length (fns s')" "length (strs s) \<le> length (strs s')"
    "length (objs s) \<le> length (objs s')"
  shows "wf_query s' ob"
  using assms by (auto simp: wf_query_def split: option.splits)

lemma wf_query_dup_obj:
  assumes "wf_query s ob"
  shows "wf_query (s\<lparr>objs := objs s @ [x], strs := strs s @ dup_strs s ob,
             fns := fns s @ [[], f]\<rparr>) (dup_obj s ob)"
  using assms by (auto simp: wf_query_def dup_obj_def dup_strs_def split: option.splits)

lemma wf_dup:
  assumes "wf s" "q < length (objs s)"
  shows "wf (snd (dup s q))"
proof -
  let ?s' = "s\<lparr>objs := objs s @ [dup_obj s (objs s ! q)],
             strs := strs s @ dup_strs s (objs s ! q),
             fns := fns s @ [[], fns s ! transforms (objs s ! q)]\<rparr>"
  have q: "wf_query s (objs s ! q)" using assms by (rule wf_nth)
  have "wf_query ?s' ob" if "ob \<in> set (objs s)" for ob
  proof (rule wf_query_mono [of s])
    show "wf_query s ob" using assms(1) that by (simp add: wf_def list_all_iff)
  qed simp_all
  then have "\<forall>ob \<in> set (objs s). wf_query ?s' ob" by blast
  moreover have "wf_query ?s' (dup_obj s (objs s ! q))"
    using q by (rule wf_query_dup_obj)
  ultimately have "wf ?s'" by (simp add: wf_def list_all_iff)
  then show ?thesis using q assms(2) by (simp add: dup_eq)
qed

lemma wf_upd:
  assumes "wf s" "r < length (objs s)" "same_refs (f (objs s ! r)) (objs s ! r)"
    "case transaction (f (objs s ! r)) of None \<Rightarrow> True | Some t \<Rightarrow> t < length (objs s)"
  shows "wf (upd r f s)"
proof -
  have "wf_query s (objs s ! r)" using assms(1,2) by (rule wf_nth)
  then have "wf_query (upd r f s) (f (objs s ! r))"
    using assms(3,4) by (auto simp: wf_query_def same_refs_def upd_def split: option.splits)
  moreover have "wf_query (upd r f s) ob" if "ob \<in> set (objs s)" for ob
  proof (rule wf_query_mono [of s])
    show "wf_query s ob" using assms(1) that by (simp add: wf_def list_all_iff)
  qed (simp_all add: upd_def)
  moreover have "set (objs (upd r f s)) \<subseteq> insert (f (objs s ! r)) (set (objs s))"
    by (simp add: upd_def set_update_subset_insert)
  ultimately show ?thesis
    unfolding wf_def list_all_iff by blast
qed

lemma wf_query_emit: "wf_query (emit e s) ob = wf_query s ob"
  by (simp add: wf_query_def emit_def cong: option.case_cong)

lemma wf_emit: "wf s \<Longrightarrow> wf (emit e s)"
  by (simp add: wf_def wf_query_emit [abs_def]) (simp add: emit_def)

lemma alloc_dup_simps:
  "length (objs (alloc_dup g s q)) = Suc (length (objs s))"
  "events (alloc_dup g s q) = events s"
  "r < length (objs s) \<Longrightarrow> obj (alloc_dup g s q) r = obj s r"
  "obj (alloc_dup g s q) (length (objs s)) = g (dup_obj s (objs s ! q))"
  "a < length (fns s) \<Longrightarrow> fns (alloc_dup g s q) ! a = fns s ! a"
  "a < length (strs s) \<Longrightarrow> strs (alloc_dup g s q) ! a = strs s ! a"
  "length (fns (alloc_dup g s q)) = Suc (Suc (length (fns s)))"
  "fns (alloc_dup g s q) ! Suc (length (fns s)) = fns s ! transforms (objs s ! q)"
  by (simp_all add: alloc_dup_def obj_def nth_append)

lemma upd_simps:
  "length (objs (upd r f s)) = length (objs s)"
  "strs (upd r f s) = strs s"
  "fns (upd r f s) = fns s"
  "events (upd r f s) = events s"
  "r < length (objs s) \<Longrightarrow> obj (upd r f s) r = f (obj s r)"
  "r' \<noteq> r \<Longrightarrow> obj (upd r f s) r' = obj s r'"
  by (simp_all add: upd_def obj_def)

lemma upd_upd: "upd r f (upd r g s) = upd r (\<lambda>ob. f (g ob)) s"
  by (cases "r < length (objs s)") (simp_all add: upd_def list_update_beyond)

lemma upd_at: "f (objs s ! r) = g (objs s ! r) \<Longrightarrow> upd r f s = upd r g s"
  by (simp add: upd_def)

lemma emit_simps:
  "objs (emit e s) = objs s" "strs (emit e s) = strs s" "fns (emit e s) = fns s"
  "events (emit e s) = events s @ [e]" "obj (emit e s) r = obj s r"
  by (simp_all add: emit_def obj_def)

lemma upd_alloc_dup_new:
  "upd (length (objs s)) f (alloc_dup g s q) = alloc_dup (\<lambda>ob. f (g ob)) s q"
  by (simp add: upd_def alloc_dup_def)

lemma dup_alloc:
  assumes "wf s" "q < length (objs s)"
  shows "dup s q = (length (objs s), alloc_dup (\<lambda>ob. ob) s q)"
  using dup_eq [OF wf_nth [OF assms] assms(2)] by (simp add: alloc_dup_def)

lemma wf_alloc_dup:
  assumes "wf s" "q < length (objs s)" "\<And>ob. same_refs (g ob) ob"
    "case transaction (g (dup_obj s (objs s ! q))) of None \<Rightarrow> True | Some t \<Rightarrow> t \<le> length (objs s)"
  shows "wf (alloc_dup g s q)"
proof -
  have "wf (alloc_dup (\<lambda>ob. ob) s q)"
    using wf_dup [OF assms(1,2)] dup_alloc [OF assms(1,2)] by simp
  then have "wf (upd (length (objs s)) g (alloc_dup (\<lambda>ob. ob) s q))"
    using assms(3,4)
    by (intro wf_upd) (auto simp: alloc_dup_def split: option.splits)
  then show ?thesis by (simp add: upd_alloc_dup_new)
qed

lemma prepareAcquire_eq:
  assumes "transaction (obj s this) = Some t"
  shows "prepareForTransactionClientAcquire this s = upd t acquire_prep s"
  using assms
  by (cases "transactionDepth (objs s ! t)")
     (auto simp add: prepareForTransactionClientAcquire_def upd_upd acquire_prep_def obj_def
       intro!: upd_at)

lemma prepareRelease_eq:
  assumes "transaction (obj s this) = Some t"
  shows "prepareForTransactionClientRelease this s = upd t release_prep s"
  using assms
  by (cases "transactionDepth (objs s ! t)")
     (auto simp add: prepareForTransactionClientRelease_def upd_upd release_prep_def obj_def
       intro!: upd_at)

lemma begin_query_eq:
  assumes "wf s" "q < length (objs s)"
  shows "begin_query s q =
     (length (objs s),
      case transaction (objs s ! q) of
        None \<Rightarrow> alloc_dup (\<lambda>ob. acquire_prep (ob\<lparr>transactionSQLOverride := Some Begin,
                                transaction := Some (length (objs s))\<rparr>)) s q
      | Some t \<Rightarrow> upd t acquire_prep
                    (alloc_dup (\<lambda>ob. ob\<lparr>transactionSQLOverride := Some Begin\<rparr>) s q))"
proof (cases "transaction (objs s ! q)")
  case None
  let ?g = "\<lambda>ob::'b query. ob\<lparr>transactionSQLOverride := Some Begin\<rparr>
              \<lparr>transaction := (case transaction (ob\<lparr>transactionSQLOverride := Some Begin\<rparr>) of
                   None \<Rightarrow> Some (length (objs s)) | Some t \<Rightarrow> Some t)\<rparr>"
  have "transaction (obj (alloc_dup ?g s q) (length (objs s))) = Some (length (objs s))"
    using None by (simp add: alloc_dup_simps dup_obj_def)
  then have "prepareForTransactionClientAcquire (length (objs s)) (alloc_dup ?g s q) =
      upd (length (objs s)) acquire_prep (alloc_dup ?g s q)"
    by (rule prepareAcquire_eq)
  also have "\<dots> = alloc_dup (\<lambda>ob. acquire_prep (?g ob)) s q"
    by (rule upd_alloc_dup_new)
  also have "\<dots> = alloc_dup (\<lambda>ob. acquire_prep (ob\<lparr>transactionSQLOverride := Some Begin,
                                transaction := Some (length (objs s))\<rparr>)) s q"
    using None by (simp add: alloc_dup_def dup_obj_def)
  finally show ?thesis
    using None by (simp add: begin_query_def dup_alloc [OF assms] upd_alloc_dup_new)
next
  case (Some t)
  let ?g = "\<lambda>ob::'b query. ob\<lparr>transactionSQLOverride := Some Begin\<rparr>
              \<lparr>transaction := (case transaction (ob\<lparr>transactionSQLOverride := Some Begin\<rparr>) of
                   None \<Rightarrow> Some (length (objs s)) | Some t \<Rightarrow> Some t)\<rparr>"
  have g: "alloc_dup ?g s q = alloc_dup (\<lambda>ob. ob\<lparr>transactionSQLOverride := Some Begin\<rparr>) s q"
    using Some by (simp add: alloc_dup_def dup_obj_def)
  have "transaction (obj (alloc_dup ?g s q) (length (objs s))) = Some t"
    using Some by (simp add: alloc_dup_simps dup_obj_def)
  then have "prepareForTransactionClientAcquire (length (objs s)) (alloc_dup ?g s q) =
      upd t acquire_prep (alloc_dup ?g s q)"
    by (rule prepareAcquire_eq)
  then show ?thesis
    using Some g by (simp add: begin_query_def dup_alloc [OF assms] upd_alloc_dup_new)
qed

lemma release_query_eq:
  assumes "wf s" "q < length (objs s)"
  shows "prepareForTransactionClientRelease (length (objs s))
           (alloc_dup (\<lambda>ob. ob\<lparr>transactionSQLOverride := Some v\<rparr>) s q) =
     (case transaction (objs s ! q) of
        None \<Rightarrow> alloc_dup (\<lambda>ob. ob\<lparr>transactionSQLOverride := Some v\<rparr>) s q
      | Some t \<Rightarrow> upd t release_prep
                    (alloc_dup (\<lambda>ob. ob\<lparr>transactionSQLOverride := Some v\<rparr>) s q))"
proof (cases "transaction (objs s ! q)")
  case None
  then show ?thesis
    by (simp add: prepareForTransactionClientRelease_def alloc_dup_simps dup_obj_def)
next
  case (Some t)
  then have "transaction (obj (alloc_dup (\<lambda>ob. ob\<lparr>transactionSQLOverride := Some v\<rparr>) s q)
      (length (objs s))) = Some t"
    by (simp add: alloc_dup_simps dup_obj_def)
  then show ?thesis using Some by (simp add: prepareRelease_eq)
qed

lemma commit_eq:
  assumes "wf s" "q < length (objs s)"
  shows "commit s q =
     (length (objs s),
      case transaction (objs s ! q) of
        None \<Rightarrow> alloc_dup (\<lambda>ob. ob\<lparr>transactionSQLOverride := Some Commit\<rparr>) s q
      | Some t \<Rightarrow> upd t release_prep
                    (alloc_dup (\<lambda>ob. ob\<lparr>transactionSQLOverride := Some Commit\<rparr>) s q))"
  by (simp add: commit_def dup_alloc [OF assms] upd_alloc_dup_new release_query_eq [OF assms])

lemma rollback_eq:
  assumes "wf s" "q < length (objs s)"
  shows "rollback s q =
     (length (objs s),
      case transaction (objs s ! q) of
        None \<Rightarrow> alloc_dup (\<lambda>ob. ob\<lparr>transactionSQLOverride := Some Rollback\<rparr>) s q
      | Some t \<Rightarrow> upd t release_prep
                    (alloc_dup (\<lambda>ob. ob\<lparr>transactionSQLOverride := Some Rollback\<rparr>) s q))"
  by (simp add: rollback_def dup_alloc [OF assms] upd_alloc_dup_new release_query_eq [OF assms])

lemma transaction_set_eq:
  assumes "wf s" "q < length (objs s)"
  shows "transaction_set txn s q =
     (length (objs s),
      let sql = transactionSQLOverride (objs s ! q);
          s1 = alloc_dup (\<lambda>ob. ob\<lparr>transaction := txn, transactionSQLOverride := sql\<rparr>) s q
      in case txn of
           None \<Rightarrow> s1
         | Some t \<Rightarrow> if sql = Some Rollback \<or> sql = Some Commit then upd t release_prep s1 else s1)"
proof -
  let ?sql = "transactionSQLOverride (objs s ! q)"
  let ?s1 = "alloc_dup (\<lambda>ob. ob\<lparr>transaction := txn, transactionSQLOverride := ?sql\<rparr>) s q"
  have s3: "(case ?sql of None \<Rightarrow> alloc_dup (\<lambda>ob. ob\<lparr>transaction := txn\<rparr>) s q
         | Some v \<Rightarrow> alloc_dup (\<lambda>ob. ob\<lparr>transaction := txn,
               transactionSQLOverride := Some v\<rparr>) s q) = ?s1"
    by (cases ?sql) (simp_all add: alloc_dup_def dup_obj_def)
  have tx: "transaction (obj ?s1 (length (objs s))) = txn"
    by (simp add: alloc_dup_simps)
  have rel: "prepareForTransactionClientRelease (length (objs s)) ?s1 =
      (case txn of None \<Rightarrow> ?s1 | Some t \<Rightarrow> upd t release_prep ?s1)"
  proof (cases txn)
    case None
    with tx show ?thesis by (simp add: prepareForTransactionClientRelease_def)
  next
    case (Some t)
    with tx show ?thesis by (simp add: prepareRelease_eq)
  qed
  have "transaction_set txn s q =
      (length (objs s),
       if ?sql = Some Rollback \<or> ?sql = Some Commit
       then prepareForTransactionClientRelease (length (objs s)) ?s1 else ?s1)"
    unfolding transaction_set_def dup_alloc [OF assms] Let_def prod.case upd_alloc_dup_new obj_def
    by (simp only: s3)
  then show ?thesis
    unfolding rel by (cases txn) (simp_all add: Let_def)
qed

lemma transform_eq:
  assumes "wf s" "q < length (objs s)"
  shows "transform fn s q =
     (length (objs s), push_fn (Suc (length (fns s))) fn (alloc_dup (\<lambda>ob. ob) s q))"
  by (simp add: transform_def dup_alloc [OF assms] alloc_dup_simps dup_obj_def)

lemma clause_mutator_eq:
  assumes "wf s" "q < length (objs s)"
  shows "clause_mutator g s q =
     (length (objs s), alloc_dup (\<lambda>ob. ob\<lparr>clauses := g (clauses ob)\<rparr>) s q)"
  by (simp add: clause_mutator_def dup_alloc [OF assms] upd_alloc_dup_new)

lemma prep_fields [simp]:
  "transaction (acquire_prep ob) = transaction ob"
  "transactionSQLOverride (acquire_prep ob) = transactionSQLOverride ob"
  "transactionClient (acquire_prep ob) = transactionClient ob"
  "transactionClientPromise (acquire_prep ob) = transactionClientPromise ob"
  "transactionClosed (acquire_prep ob) = transactionClosed ob"
  "transactionNeedsToReleaseClient (acquire_prep ob) = transactionNeedsToReleaseClient ob"
  "transaction (release_prep ob) = transaction ob"
  "transactionSQLOverride (release_prep ob) = transactionSQLOverride ob"
  "transactionClient (release_prep ob) = transactionClient ob"
  "transactionClientPromise (release_prep ob) = transactionClientPromise ob"
  "transactionNeedsToAcquireClient (release_prep ob) = transactionNeedsToAcquireClient ob"
  "same_refs (acquire_prep ob) ob"
  "same_refs (release_prep ob) ob"
  "clauses (acquire_prep ob) = clauses ob" "adapter (acquire_prep ob) = adapter ob"
  "clauses (release_prep ob) = clauses ob" "adapter (release_prep ob) = adapter ob"
  by (simp_all add: acquire_prep_def release_prep_def same_refs_def)

lemma same_refs_D:
  "same_refs a b \<Longrightarrow> identity a = identity b \<and> tables a = tables b \<and> columns a = columns b \<and>
      transforms a = transforms b"
  by (simp add: same_refs_def)

lemma wf_transaction_bound:
  assumes "wf s" "q < length (objs s)" "transaction (obj s q) = Some t"
  shows "t < length (objs s)"
  using wf_nth [OF assms(1,2)] assms(3) by (simp add: wf_query_def obj_def)

lemma begin_bound:
  assumes "wf s" "q < length (objs s)" "transaction (obj s q) = Some t"
    and "begin_query s q = (d, s')"
  shows "d = length (objs s) \<and> wf s' \<and> length (objs s') = Suc (length (objs s)) \<and>
     events s' = events s \<and> fns s' = fns (alloc_dup (\<lambda>ob. ob) s q) \<and>
     strs s' = strs (alloc_dup (\<lambda>ob. ob) s q) \<and>
     obj s' t = acquire_prep (obj s t) \<and>
     obj s' d = (dup_obj s (obj s q))\<lparr>transactionSQLOverride := Some Begin\<rparr> \<and>
     (\<forall>r < length (objs s). r \<noteq> t \<longrightarrow> obj s' r = obj s r)"
proof -
  have t: "t < length (objs s)" using assms(1-3) by (rule wf_transaction_bound)
  let ?a = "alloc_dup (\<lambda>ob. ob\<lparr>transactionSQLOverride := Some Begin\<rparr>) s q"
  have eq: "d = length (objs s)" "s' = upd t acquire_prep ?a"
    using assms(4) assms(3) by (simp_all add: begin_query_eq [OF assms(1,2)] obj_def)
  have "wf ?a"
    using assms(1,2) t assms(3)
    by (intro wf_alloc_dup) (simp_all add: same_refs_def dup_obj_def obj_def)
  then have "wf s'"
    unfolding eq using t assms(1)
    by (intro wf_upd) (auto simp: alloc_dup_simps alloc_dup_def nth_append
        dest: wf_nth split: option.splits simp: wf_query_def)
  then show ?thesis
    using t by (simp add: eq upd_simps alloc_dup_simps) (simp add: alloc_dup_def obj_def)
qed

lemma begin_unbound:
  assumes "wf s" "q < length (objs s)" "transaction (obj s q) = None"
    and "begin_query s q = (d, s')"
  shows "d = length (objs s) \<and> wf s' \<and> length (objs s') = Suc (length (objs s)) \<and>
     events s' = events s \<and> fns s' = fns (alloc_dup (\<lambda>ob. ob) s q) \<and>
     strs s' = strs (alloc_dup (\<lambda>ob. ob) s q) \<and>
     obj s' d = (dup_obj s (obj s q))\<lparr>transactionSQLOverride := Some Begin,
        transaction := Some d, transactionDepth := Num 1,
        transactionNeedsToAcquireClient := True\<rparr> \<and>
     (\<forall>r < length (objs s). obj s' r = obj s r)"
proof -
  let ?g = "\<lambda>ob::'b query. acquire_prep (ob\<lparr>transactionSQLOverride := Some Begin,
                                transaction := Some (length (objs s))\<rparr>)"
  have eq: "d = length (objs s)" "s' = alloc_dup ?g s q"
    using assms(4) assms(3) by (auto simp add: begin_query_eq [OF assms(1,2)] obj_def)
  have "wf s'"
    unfolding eq using assms(1,2)
    by (intro wf_alloc_dup) (simp_all add: same_refs_def acquire_prep_def)
  then show ?thesis
    by (simp add: eq alloc_dup_simps) (simp add: alloc_dup_def obj_def acquire_prep_def dup_obj_def)
qed

lemma release_bound:
  assumes "wf s" "q < length (objs s)" "transaction (obj s q) = Some t"
    and "(v = Commit \<and> commit s q = (d, s')) \<or> (v = Rollback \<and> rollback s q = (d, s'))"
  shows "d = length (objs s) \<and> wf s' \<and> length (objs s') = Suc (length (objs s)) \<and>
     events s' = events s \<and> fns s' = fns (alloc_dup (\<lambda>ob. ob) s q) \<and>
     strs s' = strs (alloc_dup (\<lambda>ob. ob) s q) \<and>
     obj s' t = release_prep (obj s t) \<and>
     obj s' d = (dup_obj s (obj s q))\<lparr>transactionSQLOverride := Some v\<rparr> \<and>
     (\<forall>r < length (objs s). r \<noteq> t \<longrightarrow> obj s' r = obj s r)"
proof -
  have t: "t < length (objs s)" using assms(1-3) by (rule wf_transaction_bound)
  let ?a = "alloc_dup (\<lambda>ob. ob\<lparr>transactionSQLOverride := Some v\<rparr>) s q"
  have eq: "d = length (objs s)" "s' = upd t release_prep ?a"
    using assms(4) assms(3)
    by (auto simp add: commit_eq [OF assms(1,2)] rollback_eq [OF assms(1,2)] obj_def)
  have "wf ?a"
    using assms(1,2) t assms(3)
    by (intro wf_alloc_dup) (simp_all add: same_refs_def dup_obj_def obj_def)
  then have "wf s'"
    unfolding eq using t assms(1)
    by (intro wf_upd) (auto simp: alloc_dup_simps alloc_dup_def nth_append
        dest: wf_nth split: option.splits simp: wf_query_def)
  then show ?thesis
    using t by (simp add: eq upd_simps alloc_dup_simps) (simp add: alloc_dup_def obj_def)
qed

lemma applyTransforms_cong:
  assumes "identity (obj s' q) = identity (obj s q)" "transforms (obj s' q) = transforms (obj s q)"
    "fns s' ! transforms (obj s q) = fns s ! transforms (obj s q)"
  shows "applyTransforms s' q r = applyTransforms s q r"
  using assms by (simp add: applyTransforms_def)

lemma obj_upd:
  "obj (upd t f s) q = (if q = t \<and> t < length (objs s) then f (obj s t) else obj s q)"
  by (cases "t < length (objs s)") (simp_all add: upd_def obj_def list_update_beyond)

lemma before_bound:
  assumes "transaction (obj s q) = Some t"
    and "validateBeforeTransactionExecution s q = Inr True"
    and "transactionNeedsToAcquireClient (obj s t) \<or> transactionClientPromise (obj s t) \<noteq> Some False"
  shows "beforeTransactionExecution (Some c) s q =
     (Inr (),
      if transactionNeedsToAcquireClient (obj s t)
      then upd t (\<lambda>ob. ob\<lparr>transactionClient := Some c,
                     transactionClientPromise := Some True,
                     transactionNeedsToAcquireClient := False\<rparr>) (emit (Acquire (Some c)) s)
      else s)"
  using assms by (auto simp add: beforeTransactionExecution_def upd_upd)

lemma base_execute_override:
  assumes "transaction (obj s q) = Some t" "transactionSQLOverride (obj s q) = Some v"
  shows "base_execute (Some r) s q =
     (Inr r, emit (Statement (Some v) (transactionClient (obj s t))) s)"
  using assms by (simp add: base_execute_def statement_def client_of_def)

lemma after_bound:
  assumes "transaction (obj s q) = Some t"
  shows "afterTransactionExecution s q =
     (if transactionNeedsToReleaseClient (obj s t)
      then upd t (\<lambda>ob. ob\<lparr>transactionClient := None, transactionNeedsToReleaseClient := False\<rparr>)
             (emit (Release (transactionClient (obj s t))) s)
      else s)"
  using assms by (simp add: afterTransactionExecution_def)

lemma bookkeeping_upd:
  assumes "bookkeeping f"
  shows "transaction (obj (upd t f s) q) = transaction (obj s q)"
    "transactionSQLOverride (obj (upd t f s) q) = transactionSQLOverride (obj s q)"
    "identity (obj (upd t f s) q) = identity (obj s q)"
    "transforms (obj (upd t f s) q) = transforms (obj s q)"
    "tables (obj (upd t f s) q) = tables (obj s q)"
    "columns (obj (upd t f s) q) = columns (obj s q)"
    "clauses (obj (upd t f s) q) = clauses (obj s q)"
    "adapter (obj (upd t f s) q) = adapter (obj s q)"
  using assms by (simp_all add: obj_upd bookkeeping_def same_refs_def)

lemma wf_upd_bookkeeping:
  assumes "wf s" "bookkeeping f"
  shows "wf (upd t f s)"
proof (cases "t < length (objs s)")
  case True
  have "wf_query s (objs s ! t)" using assms(1) True by (rule wf_nth)
  then show ?thesis
    using assms True
    by (intro wf_upd) (auto simp: bookkeeping_def wf_query_def split: option.splits)
next
  case False
  then show ?thesis using assms(1) by (simp add: upd_def list_update_beyond)
qed

lemma bookkeeping_intros [simp]:
  "bookkeeping acquire_prep" "bookkeeping release_prep"
  "bookkeeping (\<lambda>ob. ob\<lparr>transactionClient := a, transactionClientPromise := b,
       transactionNeedsToAcquireClient := c\<rparr>)"
  "bookkeeping (\<lambda>ob. ob\<lparr>transactionClient := a, transactionNeedsToReleaseClient := c\<rparr>)"
  by (simp_all add: bookkeeping_def same_refs_def acquire_prep_def release_prep_def)

text \<open>
  Executing a statement query (one with an override) that is bound to the handle
  \<open>t\<close> when validation passes, the pool delivers and the driver succeeds.
\<close>

lemma execute_override:
  assumes "wf s" "q < length (objs s)" "transaction (obj s q) = Some t"
    and "transactionSQLOverride (obj s q) = Some v"
    and "v = Begin \<or> \<not> transactionNeedsToAcquireClient (obj s t)"
    and "transactionNeedsToAcquireClient (obj s t) \<or> transactionClientPromise (obj s t) \<noteq> Some False"
    and "execute (Some c) (Some r) s q = (x, s')"
    and "cl = (if transactionNeedsToAcquireClient (obj s t) then Some c else transactionClient (obj s t))"
  shows "x = Inr (applyTransforms s q r) \<and> wf s' \<and> length (objs s') = length (objs s) \<and>
     fns s' = fns s \<and> strs s' = strs s \<and>
     events s' = events s
        @ (if transactionNeedsToAcquireClient (obj s t) then [Acquire (Some c)] else [])
        @ [Statement (Some v) cl]
        @ (if transactionNeedsToReleaseClient (obj s t) then [Release cl] else []) \<and>
     obj s' t = (obj s t)\<lparr>
        transactionClient := (if transactionNeedsToReleaseClient (obj s t) then None else cl),
        transactionClientPromise :=
          (if transactionNeedsToAcquireClient (obj s t) then Some True
           else transactionClientPromise (obj s t)),
        transactionNeedsToAcquireClient := False,
        transactionNeedsToReleaseClient := False\<rparr> \<and>
     (\<forall>p. p \<noteq> t \<longrightarrow> obj s' p = obj s p)"
proof -
  have t: "t < length (objs s)" using assms(1-3) by (rule wf_transaction_bound)
  have v: "validateBeforeTransactionExecution s q = Inr True"
    using assms(3-5) by (auto simp: validateBeforeTransactionExecution_def)
  define s1 where "s1 = snd (beforeTransactionExecution (Some c) s q)"
  have b: "beforeTransactionExecution (Some c) s q = (Inr (), s1)"
    unfolding s1_def by (simp add: before_bound [OF assms(3) v assms(6)])
  have s1: "s1 = (if transactionNeedsToAcquireClient (obj s t)
      then upd t (\<lambda>ob. ob\<lparr>transactionClient := Some c,
                     transactionClientPromise := Some True,
                     transactionNeedsToAcquireClient := False\<rparr>) (emit (Acquire (Some c)) s)
      else s)"
    unfolding s1_def by (simp add: before_bound [OF assms(3) v assms(6)])
  have s1q: "transaction (obj s1 q) = Some t" "transactionSQLOverride (obj s1 q) = Some v"
    using assms(3,4) by (simp_all add: s1 bookkeeping_upd emit_simps)
  have wf1: "wf s1" using assms(1) by (simp add: s1 wf_upd_bookkeeping wf_emit)
  have cl1: "transactionClient (obj s1 t) = cl"
    using t by (simp add: s1 assms(8) obj_upd emit_simps)
  define s2 where "s2 = emit (Statement (Some v) cl) s1"
  have e: "base_execute (Some r) s1 q = (Inr r, s2)"
    by (simp add: base_execute_override [OF s1q] cl1 s2_def)
  have s2q: "transaction (obj s2 q) = Some t"
    using s1q by (simp add: s2_def emit_simps)
  have s': "s' = afterTransactionExecution s2 q" and x: "x = Inr (applyTransforms s' q r)"
    using assms(7) by (auto simp add: execute_def b e Let_def)
  have rel2: "transactionNeedsToReleaseClient (obj s2 t) = transactionNeedsToReleaseClient (obj s t)"
    by (simp add: s2_def s1 emit_simps obj_upd)
  have cl2: "transactionClient (obj s2 t) = cl"
    using cl1 by (simp add: s2_def emit_simps)
  have s'_eq: "s' = (if transactionNeedsToReleaseClient (obj s t)
      then upd t (\<lambda>ob. ob\<lparr>transactionClient := None, transactionNeedsToReleaseClient := False\<rparr>)
             (emit (Release cl) s2)
      else s2)"
    unfolding s' after_bound [OF s2q] rel2 cl2 ..
  have wf': "wf s'"
    using wf1 by (simp add: s'_eq s2_def wf_upd_bookkeeping wf_emit)
  have ev: "events s' = events s
        @ (if transactionNeedsToAcquireClient (obj s t) then [Acquire (Some c)] else [])
        @ [Statement (Some v) cl]
        @ (if transactionNeedsToReleaseClient (obj s t) then [Release cl] else [])"
    by (simp add: s'_eq s2_def s1 upd_simps emit_simps)
  have fr: "fns s' = fns s" "strs s' = strs s" "length (objs s') = length (objs s)"
    by (simp_all add: s'_eq s2_def s1 upd_simps emit_simps)
  have ot: "obj s' t = (obj s t)\<lparr>
        transactionClient := (if transactionNeedsToReleaseClient (obj s t) then None else cl),
        transactionClientPromise :=
          (if transactionNeedsToAcquireClient (obj s t) then Some True
           else transactionClientPromise (obj s t)),
        transactionNeedsToAcquireClient := False,
        transactionNeedsToReleaseClient := False\<rparr>"
    using t by (simp add: s'_eq s2_def s1 obj_upd emit_simps upd_simps assms(8))
  have oth: "\<forall>p. p \<noteq> t \<longrightarrow> obj s' p = obj s p"
    by (simp add: s'_eq s2_def s1 obj_upd emit_simps)
  have "applyTransforms s' q r = applyTransforms s q r"
    by (rule applyTransforms_cong)
       (simp_all add: s'_eq s2_def s1 bookkeeping_upd emit_simps fr upd_simps)
  with x wf' ev fr ot oth show ?thesis by simp
qed

lemma execute_acq_irrelevant:
  assumes "transaction (obj s q) = Some t" "\<not> transactionNeedsToAcquireClient (obj s t)"
  shows "execute a drv s q = execute a' drv s q"
  using assms by (simp add: execute_def beforeTransactionExecution_def split: sum.splits)

lemma apply_new:
  assumes "fns s' = fns (alloc_dup (\<lambda>ob. ob) s q)"
    and "identity (obj s' d) = identity (obj s q)"
    and "transforms (obj s' d) = Suc (length (fns s))"
  shows "applyTransforms s' d r = applyTransforms s q r"
  using assms by (simp add: applyTransforms_def alloc_dup_simps obj_def)

lemma apply_old:
  assumes "wf s" "p < length (objs s)"
    and "fns s' = fns (alloc_dup (\<lambda>ob. ob) s q)"
    and "identity (obj s' p) = identity (obj s p)"
    and "transforms (obj s' p) = transforms (obj s p)"
  shows "applyTransforms s' p r = applyTransforms s p r"
proof -
  have "transforms (obj s p) < length (fns s)"
    using wf_nth [OF assms(1,2)] by (simp add: wf_query_def obj_def)
  then show ?thesis
    using assms(3-5) by (simp add: applyTransforms_def alloc_dup_simps)
qed

lemma prep_refs [simp]:
  "identity (acquire_prep ob) = identity ob" "transforms (acquire_prep ob) = transforms ob"
  "tables (acquire_prep ob) = tables ob" "columns (acquire_prep ob) = columns ob"
  "identity (release_prep ob) = identity ob" "transforms (release_prep ob) = transforms ob"
  "tables (release_prep ob) = tables ob" "columns (release_prep ob) = columns ob"
  by (simp_all add: acquire_prep_def release_prep_def)

lemma dup_obj_fields [simp]:
  "identity (dup_obj s ob) = identity ob" "adapter (dup_obj s ob) = adapter ob"
  "clauses (dup_obj s ob) = clauses ob" "transaction (dup_obj s ob) = transaction ob"
  "transforms (dup_obj s ob) = Suc (length (fns s))"
  "transactionSQLOverride (dup_obj s ob) = None"
  "transactionDepth (dup_obj s ob) = Undefined"
  "\<not> transactionNeedsToAcquireClient (dup_obj s ob)"
  "\<not> transactionNeedsToReleaseClient (dup_obj s ob)"
  "\<not> transactionClosed (dup_obj s ob)"
  "transactionClient (dup_obj s ob) = None"
  "transactionClientPromise (dup_obj s ob) = None"
  by (simp_all add: dup_obj_def)

lemma begin_unbound_facts:
  assumes "wf s" "q < length (objs s)" "transaction (obj s q) = None"
    and "begin_query s q = (d, s')"
  shows "d = length (objs s)" "wf s'" "d < length (objs s')" "events s' = events s"
    "transaction (obj s' d) = Some d"
    "transactionSQLOverride (obj s' d) = Some Begin"
    "transactionDepth (obj s' d) = Num 1"
    "transactionNeedsToAcquireClient (obj s' d)"
    "\<not> transactionNeedsToReleaseClient (obj s' d)"
    "\<not> transactionClosed (obj s' d)"
    "transactionClient (obj s' d) = None"
    "transactionClientPromise (obj s' d) = None"
    "applyTransforms s' d r = applyTransforms s q r"
    "p < length (objs s) \<Longrightarrow> obj s' p = obj s p"
    "p < length (objs s) \<Longrightarrow> applyTransforms s' p r = applyTransforms s p r"
proof -
  note B = begin_unbound [OF assms]
  show d: "d = length (objs s)" and "wf s'" and "d < length (objs s')"
    and "events s' = events s"
    using B by auto
  have o: "obj s' d = (dup_obj s (obj s q))\<lparr>transactionSQLOverride := Some Begin,
        transaction := Some d, transactionDepth := Num 1,
        transactionNeedsToAcquireClient := True\<rparr>"
    using B by blast
  show "transaction (obj s' d) = Some d"
    "transactionSQLOverride (obj s' d) = Some Begin"
    "transactionDepth (obj s' d) = Num 1"
    "transactionNeedsToAcquireClient (obj s' d)"
    "\<not> transactionNeedsToReleaseClient (obj s' d)"
    "\<not> transactionClosed (obj s' d)"
    "transactionClient (obj s' d) = None"
    "transactionClientPromise (obj s' d) = None"
    by (simp_all add: o)
  have f: "fns s' = fns (alloc_dup (\<lambda>ob. ob) s q)" using B by blast
  show "applyTransforms s' d r = applyTransforms s q r"
    using f by (rule apply_new) (simp_all add: o)
  show old: "obj s' p = obj s p" if "p < length (objs s)" for p
    using B that by blast
  show "applyTransforms s' p r = applyTransforms s p r" if "p < length (objs s)"
    using assms(1) that f by (rule apply_old) (simp_all add: old [OF that])
qed

lemma begin_bound_facts:
  assumes "wf s" "q < length (objs s)" "transaction (obj s q) = Some t"
    and "begin_query s q = (d, s')"
  shows "d = length (objs s)" "wf s'" "d < length (objs s')" "t < length (objs s')"
    "events s' = events s"
    "obj s' t = acquire_prep (obj s t)"
    "transaction (obj s' d) = Some t"
    "transactionSQLOverride (obj s' d) = Some Begin"
    "applyTransforms s' d r = applyTransforms s q r"
    "p < length (objs s) \<Longrightarrow> applyTransforms s' p r = applyTransforms s p r"
proof -
  note B = begin_bound [OF assms]
  have t: "t < length (objs s)" using assms(1-3) by (rule wf_transaction_bound)
  show d: "d = length (objs s)" and "wf s'" and "d < length (objs s')"
    and "t < length (objs s')" and "events s' = events s"
    using B t by auto
  show ot: "obj s' t = acquire_prep (obj s t)" using B by blast
  have o: "obj s' d = (dup_obj s (obj s q))\<lparr>transactionSQLOverride := Some Begin\<rparr>"
    using B by blast
  show "transaction (obj s' d) = Some t" "transactionSQLOverride (obj s' d) = Some Begin"
    by (simp_all add: o assms(3))
  have f: "fns s' = fns (alloc_dup (\<lambda>ob. ob) s q)" using B by blast
  show "applyTransforms s' d r = applyTransforms s q r"
    using f by (rule apply_new) (simp_all add: o)
  have old: "obj s' p = obj s p" if "p < length (objs s)" "p \<noteq> t" for p
    using B that by blast
  show "applyTransforms s' p r = applyTransforms s p r" if "p < length (objs s)"
    using assms(1) that f
    by (rule apply_old) (cases "p = t"; simp add: old [OF that] ot)+
qed

lemma release_bound_facts:
  assumes "wf s" "q < length (objs s)" "transaction (obj s q) = Some t"
    and "(v = Commit \<and> commit s q = (d, s')) \<or> (v = Rollback \<and> rollback s q = (d, s'))"
  shows "d = length (objs s)" "wf s'" "d < length (objs s')" "t < length (objs s')"
    "events s' = events s"
    "obj s' t = release_prep (obj s t)"
    "transaction (obj s' d) = Some t"
    "transactionSQLOverride (obj s' d) = Some v"
    "applyTransforms s' d r = applyTransforms s q r"
    "p < length (objs s) \<Longrightarrow> applyTransforms s' p r = applyTransforms s p r"
proof -
  note B = release_bound [OF assms]
  have t: "t < length (objs s)" using assms(1-3) by (rule wf_transaction_bound)
  show d: "d = length (objs s)" and "wf s'" and "d < length (objs s')"
    and "t < length (objs s')" and "events s' = events s"
    using B t by auto
  show ot: "obj s' t = release_prep (obj s t)" using B by blast
  have o: "obj s' d = (dup_obj s (obj s q))\<lparr>transactionSQLOverride := Some v\<rparr>"
    using B by blast
  show "transaction (obj s' d) = Some t" "transactionSQLOverride (obj s' d) = Some v"
    by (simp_all add: o assms(3))
  have f: "fns s' = fns (alloc_dup (\<lambda>ob. ob) s q)" using B by blast
  show "applyTransforms s' d r = applyTransforms s q r"
    using f by (rule apply_new) (simp_all add: o)
  have old: "obj s' p = obj s p" if "p < length (objs s)" "p \<noteq> t" for p
    using B that by blast
  show "applyTransforms s' p r = applyTransforms s p r" if "p < length (objs s)"
    using assms(1) that f
    by (rule apply_old) (cases "p = t"; simp add: old [OF that] ot)+
qed

lemma execute_override_facts:
  assumes "wf s" "q < length (objs s)" "transaction (obj s q) = Some t"
    and "transactionSQLOverride (obj s q) = Some v"
    and "v = Begin \<or> \<not> transactionNeedsToAcquireClient (obj s t)"
    and "transactionNeedsToAcquireClient (obj s t) \<or> transactionClientPromise (obj s t) \<noteq> Some False"
    and "execute (Some c) (Some r) s q = (x, s')"
    and "cl = (if transactionNeedsToAcquireClient (obj s t) then Some c else transactionClient (obj s t))"
  shows "x = Inr (applyTransforms s q r)" "wf s'" "length (objs s') = length (objs s)"
    "events s' = events s
        @ (if transactionNeedsToAcquireClient (obj s t) then [Acquire (Some c)] else [])
        @ [Statement (Some v) cl]
        @ (if transactionNeedsToReleaseClient (obj s t) then [Release cl] else [])"
    "obj s' t = (obj s t)\<lparr>
        transactionClient := (if transactionNeedsToReleaseClient (obj s t) then None else cl),
        transactionClientPromise :=
          (if transactionNeedsToAcquireClient (obj s t) then Some True
           else transactionClientPromise (obj s t)),
        transactionNeedsToAcquireClient := False,
        transactionNeedsToReleaseClient := False\<rparr>"
    "p \<noteq> t \<Longrightarrow> obj s' p = obj s p"
    "applyTransforms s' p r' = applyTransforms s p r'"
proof -
  note E = execute_override [OF assms]
  show "x = Inr (applyTransforms s q r)" "wf s'" "length (objs s') = length (objs s)"
    using E by blast+
  show "events s' = events s
        @ (if transactionNeedsToAcquireClient (obj s t) then [Acquire (Some c)] else [])
        @ [Statement (Some v) cl]
        @ (if transactionNeedsToReleaseClient (obj s t) then [Release cl] else [])"
    using E by blast
  show ot: "obj s' t = (obj s t)\<lparr>
        transactionClient := (if transactionNeedsToReleaseClient (obj s t) then None else cl),
        transactionClientPromise :=
          (if transactionNeedsToAcquireClient (obj s t) then Some True
           else transactionClientPromise (obj s t)),
        transactionNeedsToAcquireClient := False,
        transactionNeedsToReleaseClient := False\<rparr>"
    using E by blast
  show old: "obj s' p = obj s p" if "p \<noteq> t" for p
    using E that by blast
  have f: "fns s' = fns s" using E by blast
  show "applyTransforms s' p r' = applyTransforms s p r'"
    by (rule applyTransforms_cong) (cases "p = t"; simp add: old ot f)+
qed

lemma preserved_alloc_dup: "preserved s (alloc_dup g s q)"
  by (simp add: preserved_def alloc_dup_simps same_refs_def)
     (simp add: alloc_dup_def)

lemma preserved_upd:
  assumes "preserved s s1" "bookkeeping f"
  shows "preserved s (upd t f s1)"
  using assms
  by (simp add: preserved_def upd_simps bookkeeping_upd same_refs_def)

lemma preserved_push_fn:
  assumes "preserved s s1" "length (fns s) \<le> a"
  shows "preserved s (push_fn a fn s1)"
  using assms by (simp add: preserved_def push_fn_def obj_def)

lemma preserved_push_str:
  assumes "preserved s s1" "length (strs s) \<le> a"
  shows "preserved s (push_str a x s1)"
  using assms by (simp add: preserved_def push_str_def obj_def)

lemma preserved_observe:
  assumes "wf s" "preserved s s'" "p < length (objs s)"
  shows "observe s' p = observe s p"
proof -
  have w: "wf_query s (obj s p)" using wf_nth [OF assms(1,3)] by (simp add: obj_def)
  have r: "same_refs (obj s' p) (obj s p)" "adapter (obj s' p) = adapter (obj s p)"
        "clauses (obj s' p) = clauses (obj s p)"
        "transaction (obj s' p) = transaction (obj s p)"
        "transactionSQLOverride (obj s' p) = transactionSQLOverride (obj s p)"
    using assms(2,3) by (simp_all add: preserved_def)
  have f: "fns s' ! transforms (obj s p) = fns s ! transforms (obj s p)"
    using w assms(2) by (simp add: preserved_def wf_query_def)
  have t: "map_option (\<lambda>a. strs s' ! a) (tables (obj s p)) =
           map_option (\<lambda>a. strs s ! a) (tables (obj s p))"
    using w assms(2) by (cases "tables (obj s p)") (simp_all add: preserved_def wf_query_def)
  have c: "map_option (\<lambda>a. strs s' ! a) (columns (obj s p)) =
           map_option (\<lambda>a. strs s ! a) (columns (obj s p))"
    using w assms(2) by (cases "columns (obj s p)") (simp_all add: preserved_def wf_query_def)
  show ?thesis
    using r f t c by (simp add: observe_def same_refs_def Let_def)
qed

text \<open>Every mutator has the same shape: a duplication, then writes to the duplicate's
  arrays and to bookkeeping fields.\<close>

lemma mutate_shape:
  assumes "wf s" "q < length (objs s)"
  shows "\<exists>g f t k.
     mutate m s q = (length (objs s), k (upd t f (alloc_dup g s q))) \<and>
     bookkeeping f \<and> (\<forall>ob. same_refs (g ob) ob) \<and>
     (k = (\<lambda>x. x) \<or> (\<exists>fn. m = MTransform fn \<and> k = push_fn (Suc (length (fns s))) fn))"
proof -
  have id: "bookkeeping (\<lambda>ob::'b query. ob)" by (simp add: bookkeeping_def same_refs_def)
  have noop: "upd (Suc (length (objs s))) f (alloc_dup g s q) = alloc_dup g s q"
    for f and g :: "'b query \<Rightarrow> 'b query"
    by (simp add: upd_def alloc_dup_def list_update_beyond)
  show ?thesis
  proof (cases m)
    case (MTransform fn)
    show ?thesis
      apply (rule exI [of _ "\<lambda>ob. ob"], rule exI [of _ "\<lambda>ob. ob"],
             rule exI [of _ "Suc (length (objs s))"],
             rule exI [of _ "push_fn (Suc (length (fns s))) fn"])
      using MTransform id by (simp add: transform_eq [OF assms] noop same_refs_def)
  next
    case (MTransaction txn)
    let ?g = "\<lambda>ob::'b query. ob\<lparr>transaction := txn,
                 transactionSQLOverride := transactionSQLOverride (objs s ! q)\<rparr>"
    let ?rel = "transactionSQLOverride (objs s ! q) = Some Rollback \<or>
                transactionSQLOverride (objs s ! q) = Some Commit"
    show ?thesis
    proof (cases "txn \<noteq> None \<and> ?rel")
      case True
      then obtain t where t: "txn = Some t" by auto
      show ?thesis
        apply (rule exI [of _ ?g], rule exI [of _ release_prep], rule exI [of _ t],
               rule exI [of _ "\<lambda>x. x"])
        using MTransaction True t
        by (simp add: transaction_set_eq [OF assms] same_refs_def Let_def)
    next
      case False
      show ?thesis
        apply (rule exI [of _ ?g], rule exI [of _ "\<lambda>ob. ob"],
               rule exI [of _ "Suc (length (objs s))"], rule exI [of _ "\<lambda>x. x"])
        using MTransaction False id
        by (auto simp add: transaction_set_eq [OF assms] same_refs_def Let_def noop
            split: option.splits)
    qed
  next
    case MBegin
    show ?thesis
    proof (cases "transaction (objs s ! q)")
      case None
      show ?thesis
        apply (rule exI [of _ "\<lambda>ob. acquire_prep (ob\<lparr>transactionSQLOverride := Some Begin,
                                transaction := Some (length (objs s))\<rparr>)"],
               rule exI [of _ "\<lambda>ob. ob"],
               rule exI [of _ "Suc (length (objs s))"], rule exI [of _ "\<lambda>x. x"])
        using MBegin None id
        by (simp add: begin_query_eq [OF assms] same_refs_def noop)
    next
      case (Some t)
      show ?thesis
        apply (rule exI [of _ "\<lambda>ob. ob\<lparr>transactionSQLOverride := Some Begin\<rparr>"],
               rule exI [of _ acquire_prep], rule exI [of _ t], rule exI [of _ "\<lambda>x. x"])
        using MBegin Some
        by (simp add: begin_query_eq [OF assms] same_refs_def)
    qed
  next
    case MCommit
    show ?thesis
    proof (cases "transaction (objs s ! q)")
      case None
      show ?thesis
        apply (rule exI [of _ "\<lambda>ob. ob\<lparr>transactionSQLOverride := Some Commit\<rparr>"],
               rule exI [of _ "\<lambda>ob. ob"],
               rule exI [of _ "Suc (length (objs s))"], rule exI [of _ "\<lambda>x. x"])
        using MCommit None id
        by (simp add: commit_eq [OF assms] same_refs_def noop)
    next
      case (Some t)
      show ?thesis
        apply (rule exI [of _ "\<lambda>ob. ob\<lparr>transactionSQLOverride := Some Commit\<rparr>"],
               rule exI [of _ release_prep], rule exI [of _ t], rule exI [of _ "\<lambda>x. x"])
        using MCommit Some
        by (simp add: commit_eq [OF assms] same_refs_def)
    qed
  next
    case MRollback
    show ?thesis
    proof (cases "transaction (objs s ! q)")
      case None
      show ?thesis
        apply (rule exI [of _ "\<lambda>ob. ob\<lparr>transactionSQLOverride := Some Rollback\<rparr>"],
               rule exI [of _ "\<lambda>ob. ob"],
               rule exI [of _ "Suc (length (objs s))"], rule exI [of _ "\<lambda>x. x"])
        using MRollback None id
        by (simp add: rollback_eq [OF assms] same_refs_def noop)
    next
      case (Some t)
      show ?thesis
        apply (rule exI [of _ "\<lambda>ob. ob\<lparr>transactionSQLOverride := Some Rollback\<rparr>"],
               rule exI [of _ release_prep], rule exI [of _ t], rule exI [of _ "\<lambda>x. x"])
        using MRollback Some
        by (simp add: rollback_eq [OF assms] same_refs_def)
    qed
  next
    case (MClause h)
    show ?thesis
      apply (rule exI [of _ "\<lambda>ob. ob\<lparr>clauses := h (clauses ob)\<rparr>"],
             rule exI [of _ "\<lambda>ob. ob"],
             rule exI [of _ "Suc (length (objs s))"], rule exI [of _ "\<lambda>x. x"])
      using MClause id
      by (simp add: clause_mutator_eq [OF assms] same_refs_def noop)
  qed
qed

lemma same_refs_trans: "same_refs a b \<Longrightarrow> same_refs b c \<Longrightarrow> same_refs a c"
  by (simp add: same_refs_def)

lemma mutate_new:
  assumes "wf s" "q < length (objs s)" "mutate m s q = (d, s')"
  shows "d = length (objs s)" "preserved s s'"
    "same_refs (obj s' d) (dup_obj s (obj s q))"
    "strs s' = strs s @ dup_strs s (obj s q)"
    "length (fns s') = Suc (Suc (length (fns s)))"
    "fns s' ! Suc (length (fns s)) =
       fns s ! transforms (obj s q) @ (case m of MTransform fn \<Rightarrow> [fn] | _ \<Rightarrow> [])"
proof -
  obtain g f t k where sh:
     "mutate m s q = (length (objs s), k (upd t f (alloc_dup g s q)))"
     "bookkeeping f" "\<forall>ob. same_refs (g ob) ob"
     "k = (\<lambda>x. x) \<or> (\<exists>fn. m = MTransform fn \<and> k = push_fn (Suc (length (fns s))) fn)"
    using mutate_shape [OF assms(1,2), of m] by (elim exE conjE) (rule that; assumption)
  let ?u = "upd t f (alloc_dup g s q)"
  show d: "d = length (objs s)" using sh(1) assms(3) by simp
  have s': "s' = k ?u" using sh(1) assms(3) by simp
  have pu: "preserved s ?u"
    by (intro preserved_upd preserved_alloc_dup sh(2))
  have ou: "same_refs (obj ?u d) (dup_obj s (obj s q))"
  proof -
    have n: "obj (alloc_dup g s q) d = g (dup_obj s (obj s q))"
      by (simp add: d alloc_dup_simps(4) obj_def [of s q])
    have "same_refs (f (g (dup_obj s (obj s q)))) (g (dup_obj s (obj s q)))"
      using sh(2) by (simp add: bookkeeping_def)
    then have "same_refs (obj ?u d) (g (dup_obj s (obj s q)))"
      by (cases "t = d") (simp_all add: obj_upd n, simp_all add: same_refs_def)
    then show ?thesis using sh(3) same_refs_trans by blast
  qed
  have su: "strs ?u = strs s @ dup_strs s (obj s q)"
    by (simp add: upd_simps alloc_dup_def obj_def)
  have fu: "length (fns ?u) = Suc (Suc (length (fns s)))"
      "fns ?u ! Suc (length (fns s)) = fns s ! transforms (obj s q)"
    by (simp_all add: upd_simps alloc_dup_simps obj_def)
  from sh(4) show "preserved s s'" "same_refs (obj s' d) (dup_obj s (obj s q))"
    "strs s' = strs s @ dup_strs s (obj s q)"
    "length (fns s') = Suc (Suc (length (fns s)))"
    "fns s' ! Suc (length (fns s)) =
       fns s ! transforms (obj s q) @ (case m of MTransform fn \<Rightarrow> [fn] | _ \<Rightarrow> [])"
  proof -
    assume k: "k = (\<lambda>x. x) \<or> (\<exists>fn. m = MTransform fn \<and> k = push_fn (Suc (length (fns s))) fn)"
    show "preserved s s'"
      using k pu by (auto simp: s' intro: preserved_push_fn)
    show "same_refs (obj s' d) (dup_obj s (obj s q))"
      using k ou by (auto simp: s' push_fn_def obj_def)
    show "strs s' = strs s @ dup_strs s (obj s q)"
      using k su by (auto simp: s' push_fn_def)
    show "length (fns s') = Suc (Suc (length (fns s)))"
      using k fu by (auto simp: s' push_fn_def)
    show "fns s' ! Suc (length (fns s)) =
       fns s ! transforms (obj s q) @ (case m of MTransform fn \<Rightarrow> [fn] | _ \<Rightarrow> [])"
    proof (cases "k = (\<lambda>x. x)")
      case True
      have "\<not> (\<exists>fn. m = MTransform fn)"
      proof
        assume "\<exists>fn. m = MTransform fn"
        then obtain fn where m: "m = MTransform fn" ..
        have "fns (snd (mutate m s q)) ! Suc (length (fns s)) =
            fns s ! transforms (obj s q) @ [fn]"
          by (simp add: m transform_eq [OF assms(1,2)] push_fn_def alloc_dup_simps obj_def)
        moreover have "fns (snd (mutate m s q)) ! Suc (length (fns s)) =
            fns s ! transforms (obj s q)"
          using fu(2) by (simp add: sh(1) True)
        ultimately show False by simp
      qed
      then show ?thesis using fu True by (cases m) (simp_all add: s')
    next
      case False
      then obtain fn where "m = MTransform fn" "k = push_fn (Suc (length (fns s))) fn"
        using k by blast
      then show ?thesis using fu by (simp add: s' push_fn_def)
    qed
  qed
qed

lemma wf_push_fn: "wf s \<Longrightarrow> wf (push_fn a fn s)"
proof -
  have "wf_query (push_fn a fn s) ob = wf_query s ob" for ob :: "'b query"
    by (simp add: wf_query_def push_fn_def cong: option.case_cong)
  then have "wf_query (push_fn a fn s) = wf_query s" by blast
  moreover assume "wf s"
  ultimately show ?thesis by (simp add: wf_def) (simp add: push_fn_def)
qed

lemma transform_facts:
  assumes "wf s" "q < length (objs s)" "transform fn s q = (d, s')"
  shows "d = length (objs s)" "wf s'" "d < length (objs s')"
    "identity (obj s' d) = identity (obj s q)"
    "applyTransforms s' d r = fn (applyTransforms s q r) (identity (obj s q))"
    "p < length (objs s) \<Longrightarrow> applyTransforms s' p r = applyTransforms s p r"
    "p < length (objs s) \<Longrightarrow> identity (obj s' p) = identity (obj s p)"
proof -
  have m: "mutate (MTransform fn) s q = (d, s')" using assms(3) by simp
  note N = mutate_new [OF assms(1,2) m]
  show "d = length (objs s)" by (rule N(1))
  have s': "s' = push_fn (Suc (length (fns s))) fn (alloc_dup (\<lambda>ob. ob) s q)"
    using assms(3) by (simp add: transform_eq [OF assms(1,2)])
  have "wf (alloc_dup (\<lambda>ob. ob) s q)"
    using wf_dup [OF assms(1,2)] by (simp add: dup_alloc [OF assms(1,2)])
  then show "wf s'" unfolding s' by (rule wf_push_fn)
  show "d < length (objs s')"
    by (simp add: s' N(1) push_fn_def alloc_dup_simps)
  have refs: "transforms (obj s' d) = Suc (length (fns s))"
      "identity (obj s' d) = identity (obj s q)"
    using N(3) by (simp_all add: same_refs_def)
  show "identity (obj s' d) = identity (obj s q)" by (rule refs)
  show "applyTransforms s' d r = fn (applyTransforms s q r) (identity (obj s q))"
    by (simp add: applyTransforms_def refs N(6) Let_def)
  show "applyTransforms s' p r = applyTransforms s p r" if "p < length (objs s)"
  proof -
    have "o_identity (observe s' p) = o_identity (observe s p)"
      "o_transforms (observe s' p) = o_transforms (observe s p)"
      using preserved_observe [OF assms(1) N(2) that] by simp_all
    then show ?thesis by (simp add: applyTransforms_def observe_def Let_def)
  qed
  show "identity (obj s' p) = identity (obj s p)" if "p < length (objs s)"
    using N(2) that by (simp add: preserved_def same_refs_def)
qed

lemma transform_all_order:
  assumes "wf s" "q < length (objs s)" "transform_all fs s q = (d, s')"
  shows "applyTransforms s' d r =
           foldl (\<lambda>transformed fn. fn transformed (identity (obj s q)))
             (applyTransforms s q r) fs \<and>
         (\<forall>p < length (objs s). applyTransforms s' p r = applyTransforms s p r)"
  using assms
proof (induction fs arbitrary: s q r)
  case Nil
  then show ?case by simp
next
  case (Cons fn fs)
  obtain d1 s1 where t: "transform fn s q = (d1, s1)" by (cases "transform fn s q")
  note T = transform_facts [OF Cons.prems(1,2) t]
  have rest: "transform_all fs s1 d1 = (d, s')"
    using Cons.prems(3) by (simp add: t)
  note IH = Cons.IH [OF T(2,3) rest]
  have "applyTransforms s' d r =
      foldl (\<lambda>transformed fn. fn transformed (identity (obj s1 d1)))
        (applyTransforms s1 d1 r) fs"
    using IH by blast
  then have 1: "applyTransforms s' d r =
      foldl (\<lambda>transformed fn. fn transformed (identity (obj s q)))
        (applyTransforms s q r) (fn # fs)"
    by (simp add: T(4) T(5))
  have 2: "applyTransforms s' p r = applyTransforms s p r" if "p < length (objs s)" for p
  proof -
    have "p < length (objs s1)" using that T(1,3) by simp
    then have "applyTransforms s' p r = applyTransforms s1 p r" using IH by blast
    then show ?thesis using T(6) [OF that] by simp
  qed
  show ?case using 1 2 by blast
qed

lemma before_apply:
  "beforeTransactionExecution acq s q = (x, s1) \<Longrightarrow>
     applyTransforms s1 p r = applyTransforms s p r"
  by (auto simp add: beforeTransactionExecution_def Let_def applyTransforms_def obj_upd
        upd_simps emit_simps split: sum.splits option.splits if_splits)

lemma base_apply:
  "base_execute drv s q = (x, s1) \<Longrightarrow>
     applyTransforms s1 p r = applyTransforms s p r \<and> (\<forall>y. x = Inr y \<longrightarrow> drv = Some y)"
  by (auto simp add: base_execute_def Let_def applyTransforms_def
        emit_simps split: sum.splits option.splits if_splits)

lemma after_apply:
  "applyTransforms (afterTransactionExecution s q) p r = applyTransforms s p r"
  by (auto simp add: afterTransactionExecution_def Let_def applyTransforms_def obj_upd
        upd_simps emit_simps split: sum.splits option.splits if_splits)

lemma execute_result:
  assumes "execute acq drv s q = (Inr x, s')"
  shows "\<exists>r. drv = Some r \<and> x = applyTransforms s q r"
proof -
  obtain b s1 where b: "beforeTransactionExecution acq s q = (b, s1)"
    by (cases "beforeTransactionExecution acq s q")
  obtain e s2 where e: "base_execute drv s1 q = (e, s2)"
    by (cases "base_execute drv s1 q")
  obtain r where r: "e = Inr r"
    using assms by (cases b; cases e) (simp_all add: execute_def b e)
  have x: "x = applyTransforms (afterTransactionExecution s2 q) q r"
    using assms by (cases b) (auto simp add: execute_def b e r Let_def)
  have "drv = Some r" using base_apply [OF e] r by blast
  moreover have "x = applyTransforms s q r"
    using x base_apply [OF e, of q r] before_apply [OF b, of q r] by (simp add: after_apply)
  ultimately show ?thesis by blast
qed

lemma execute_unbound:
  assumes "identity (obj s q) = SelectQuery" "transaction (obj s q) = None"
    and "transactionSQLOverride (obj s q) = None"
  shows "execute acq (Some r) s q =
     (Inr (applyTransforms s q r), emit (Statement None None) s)"
proof -
  have o: "obj (emit e s) q = obj s q" for e
    by (simp add: obj_def emit_simps)
  have a: "applyTransforms (emit e s) q r = applyTransforms s q r" for e
    by (rule applyTransforms_cong) (simp_all add: o emit_simps)
  show ?thesis
    by (simp add: execute_def beforeTransactionExecution_def
        validateBeforeTransactionExecution_def base_execute_def statement_def client_of_def
        afterTransactionExecution_def assms o a Let_def)
qed

lemma transform_binding:
  assumes "wf s" "q < length (objs s)" "transform fn s q = (d, s')"
  shows "transaction (obj s' d) = transaction (obj s q)"
    "transactionSQLOverride (obj s' d) = None"
    "p < length (objs s) \<Longrightarrow> transaction (obj s' p) = transaction (obj s p)"
    "p < length (objs s) \<Longrightarrow>
       transactionSQLOverride (obj s' p) = transactionSQLOverride (obj s p)"
proof -
  have s': "s' = push_fn (Suc (length (fns s))) fn (alloc_dup (\<lambda>ob. ob) s q)"
    and d: "d = length (objs s)"
    using assms(3) by (simp_all add: transform_eq [OF assms(1,2)])
  have po: "obj (push_fn a fn x) p = obj x p" for a x p
    by (simp add: obj_def push_fn_def)
  have n: "obj s' d = dup_obj s (objs s ! q)"
    by (simp add: s' d po alloc_dup_simps)
  show "transaction (obj s' d) = transaction (obj s q)"
    "transactionSQLOverride (obj s' d) = None"
    unfolding n by (simp_all add: dup_obj_def obj_def)
  show "transaction (obj s' p) = transaction (obj s p)"
    "transactionSQLOverride (obj s' p) = transactionSQLOverride (obj s p)"
    if "p < length (objs s)"
    using that by (simp_all add: s' po alloc_dup_simps)
qed

lemma transform_all_binding:
  assumes "wf s" "q < length (objs s)" "transform_all fs s q = (d, s')"
    and "transaction (obj s q) = None" "transactionSQLOverride (obj s q) = None"
  shows "identity (obj s' d) = identity (obj s q) \<and> transaction (obj s' d) = None \<and>
     transactionSQLOverride (obj s' d) = None"
  using assms
proof (induction fs arbitrary: s q)
  case Nil
  then show ?case by simp
next
  case (Cons fn fs)
  obtain d1 s1 where t: "transform fn s q = (d1, s1)" by (cases "transform fn s q")
  note T = transform_facts [OF Cons.prems(1,2) t]
  note B = transform_binding [OF Cons.prems(1,2) t]
  have rest: "transform_all fs s1 d1 = (d, s')"
    using Cons.prems(3) by (simp add: t)
  have "identity (obj s' d) = identity (obj s1 d1) \<and> transaction (obj s' d) = None \<and>
     transactionSQLOverride (obj s' d) = None"
    using T(2,3) rest
  proof (rule Cons.IH)
    show "transaction (obj s1 d1) = None" using B(1) Cons.prems(4) by simp
    show "transactionSQLOverride (obj s1 d1) = None" by (rule B(2))
  qed
  then show ?case by (simp add: T(4))
qed

lemma transform_all_list:
  assumes "wf s" "q < length (objs s)" "transform_all fs s q = (d, s')"
  shows "fns s' ! transforms (obj s' d) = fns s ! transforms (obj s q) @ fs"
  using assms
proof (induction fs arbitrary: s q)
  case Nil
  then show ?case by simp
next
  case (Cons fn fs)
  obtain d1 s1 where t: "transform fn s q = (d1, s1)" by (cases "transform fn s q")
  note T = transform_facts [OF Cons.prems(1,2) t]
  have m: "mutate (MTransform fn) s q = (d1, s1)" using t by simp
  note N = mutate_new [OF Cons.prems(1,2) m]
  have rest: "transform_all fs s1 d1 = (d, s')"
    using Cons.prems(3) by (simp add: t)
  have "fns s' ! transforms (obj s' d) = fns s1 ! transforms (obj s1 d1) @ fs"
    using T(2,3) rest by (rule Cons.IH)
  moreover have "transforms (obj s1 d1) = Suc (length (fns s))"
    using N(3) by (simp add: same_refs_def dup_obj_def)
  ultimately show ?case using N(6) by simp
qed

lemma bk_of_prep:
  "bk_of (acquire_prep ob) = abs_build Begin (bk_of ob)"
  "v \<noteq> Begin \<Longrightarrow> bk_of (release_prep ob) = abs_build v (bk_of ob)"
  by (simp_all add: bk_of_def acquire_prep_def release_prep_def abs_build_def)

text \<open>One build on the handle.\<close>

lemma build_on_step:
  assumes "wf s" "txn < length (objs s)" "transaction (obj s txn) = Some txn"
    and "build_on v s txn = (d, s')"
  shows "wf s'" "length (objs s') = Suc (length (objs s))" "d = length (objs s)"
    "events s' = events s"
    "bk_of (obj s' txn) = abs_build v (bk_of (obj s txn))"
    "transaction (obj s' d) = Some txn" "transactionSQLOverride (obj s' d) = Some v"
    "applyTransforms s' d r = applyTransforms s txn r"
    "p < length (objs s) \<Longrightarrow> transaction (obj s' p) = transaction (obj s p)"
    "p < length (objs s) \<Longrightarrow> transactionSQLOverride (obj s' p) = transactionSQLOverride (obj s p)"
    "p < length (objs s) \<Longrightarrow> applyTransforms s' p r = applyTransforms s p r"
proof -
  have H: "wf s' \<and> length (objs s') = Suc (length (objs s)) \<and> d = length (objs s) \<and>
     events s' = events s \<and>
     bk_of (obj s' txn) = abs_build v (bk_of (obj s txn)) \<and>
     transaction (obj s' txn) = transaction (obj s txn) \<and>
     transactionSQLOverride (obj s' txn) = transactionSQLOverride (obj s txn) \<and>
     obj s' d = (dup_obj s (obj s txn))\<lparr>transactionSQLOverride := Some v\<rparr> \<and>
     (\<forall>r < length (objs s). r \<noteq> txn \<longrightarrow> obj s' r = obj s r) \<and>
     (\<forall>r. applyTransforms s' d r = applyTransforms s txn r) \<and>
     (\<forall>p r. p < length (objs s) \<longrightarrow> applyTransforms s' p r = applyTransforms s p r)"
  proof (cases v)
    case Begin
    then have b: "begin_query s txn = (d, s')" using assms(4) by (simp add: build_on_def)
    note B = begin_bound [OF assms(1-3) b]
    note F = begin_bound_facts [OF assms(1-3) b]
    show ?thesis using B F(9,10) by (auto simp add: Begin bk_of_prep)
  next
    case Commit
    then have b: "(Commit = Commit \<and> commit s txn = (d, s')) \<or>
        (Commit = Rollback \<and> rollback s txn = (d, s'))"
      using assms(4) by (simp add: build_on_def)
    note B = release_bound [OF assms(1-3) b]
    note F = release_bound_facts [OF assms(1-3) b]
    show ?thesis using B F(9,10) by (auto simp add: Commit bk_of_prep)
  next
    case Rollback
    then have b: "(Rollback = Commit \<and> commit s txn = (d, s')) \<or>
        (Rollback = Rollback \<and> rollback s txn = (d, s'))"
      using assms(4) by (simp add: build_on_def)
    note B = release_bound [OF assms(1-3) b]
    note F = release_bound_facts [OF assms(1-3) b]
    show ?thesis using B F(9,10) by (auto simp add: Rollback bk_of_prep)
  qed
  show "wf s'" "length (objs s') = Suc (length (objs s))" "d = length (objs s)"
    "events s' = events s" "bk_of (obj s' txn) = abs_build v (bk_of (obj s txn))"
    "applyTransforms s' d r = applyTransforms s txn r"
    using H by blast+
  have od: "obj s' d = (dup_obj s (obj s txn))\<lparr>transactionSQLOverride := Some v\<rparr>"
    using H by blast
  show "transaction (obj s' d) = Some txn" "transactionSQLOverride (obj s' d) = Some v"
    by (simp_all add: od dup_obj_def assms(3))
  have ot: "transaction (obj s' txn) = transaction (obj s txn)"
    "transactionSQLOverride (obj s' txn) = transactionSQLOverride (obj s txn)"
    using H by blast+
  have old: "obj s' p = obj s p" if "p < length (objs s)" "p \<noteq> txn" for p
    using H that by blast
  show "transaction (obj s' p) = transaction (obj s p)"
    "transactionSQLOverride (obj s' p) = transactionSQLOverride (obj s p)"
    if "p < length (objs s)"
    using that ot old by (cases "p = txn"; simp)+
  show "applyTransforms s' p r = applyTransforms s p r" if "p < length (objs s)"
    using H that by blast
qed

lemma bk_of_simps [simp]:
  "b_depth (bk_of ob) = transactionDepth ob"
  "b_acquire (bk_of ob) = transactionNeedsToAcquireClient ob"
  "b_release (bk_of ob) = transactionNeedsToReleaseClient ob"
  "b_closed (bk_of ob) = transactionClosed ob"
  "b_client (bk_of ob) = transactionClient ob"
  "b_promise (bk_of ob) = transactionClientPromise ob"
  by (simp_all add: bk_of_def)

lemma abs_exec_acquire:
  assumes "b_acquire k" "abs_exec a v (k, ev) = Some (k', ev')"
  shows "\<exists>c. a = Some c \<and> v = Begin \<and>
     k' = k\<lparr>b_client := (if b_release k then None else Some c),
            b_promise := Some True, b_acquire := False, b_release := False\<rparr> \<and>
     ev' = ev @ [Acquire (Some c), Statement (Some v) (Some c)] @
             (if b_release k then [Release (Some c)] else [])"
proof (cases a)
  case None
  then show ?thesis using assms by (simp add: abs_exec_def)
next
  case (Some c)
  show ?thesis
  proof (cases "v = Begin")
    case True
    then show ?thesis using assms Some by (simp add: abs_exec_def Let_def)
  next
    case False
    then show ?thesis using assms Some by (simp add: abs_exec_def)
  qed
qed

lemma abs_exec_plain:
  assumes "\<not> b_acquire k" "abs_exec a v (k, ev) = Some (k', ev')"
  shows "b_promise k \<noteq> Some False \<and>
     k' = k\<lparr>b_client := (if b_release k then None else b_client k), b_release := False\<rparr> \<and>
     ev' = ev @ [Statement (Some v) (b_client k)] @
             (if b_release k then [Release (b_client k)] else [])"
proof (cases "b_promise k = Some False")
  case True
  then show ?thesis using assms by (simp add: abs_exec_def)
next
  case False
  then show ?thesis using assms by (simp add: abs_exec_def Let_def)
qed

text \<open>One execution of a query with an override that is bound to the handle.\<close>

lemma execute_step:
  assumes "wf s" "p < length (objs s)" "transaction (obj s p) = Some txn"
    and "transactionSQLOverride (obj s p) = Some v"
    and "abs_exec a v (bk_of (obj s txn), events s) = Some (k', ev')"
    and "execute a (Some r) s p = (x, s')"
  shows "x = Inr (applyTransforms s p r)" "wf s'" "length (objs s') = length (objs s)"
    "events s' = ev'" "bk_of (obj s' txn) = k'"
    "transaction (obj s' p') = transaction (obj s p')"
    "transactionSQLOverride (obj s' p') = transactionSQLOverride (obj s p')"
    "applyTransforms s' p' r' = applyTransforms s p' r'"
proof -
  let ?h = "obj s txn"
  have "x = Inr (applyTransforms s p r) \<and> wf s' \<and> length (objs s') = length (objs s) \<and>
    events s' = ev' \<and> bk_of (obj s' txn) = k' \<and>
    transaction (obj s' txn) = transaction ?h \<and>
    transactionSQLOverride (obj s' txn) = transactionSQLOverride ?h \<and>
    (\<forall>p'. p' \<noteq> txn \<longrightarrow> obj s' p' = obj s p') \<and>
    (\<forall>p' r'. applyTransforms s' p' r' = applyTransforms s p' r')"
  proof (cases "transactionNeedsToAcquireClient ?h")
    case True
    then have "b_acquire (bk_of ?h)" by simp
    from abs_exec_acquire [OF this assms(5)] obtain c where c: "a = Some c" "v = Begin"
      and k': "k' = (bk_of ?h)\<lparr>b_client :=
            (if transactionNeedsToReleaseClient ?h then None else Some c),
          b_promise := Some True, b_acquire := False, b_release := False\<rparr>"
      and ev': "ev' = events s @ [Acquire (Some c), Statement (Some v) (Some c)] @
             (if transactionNeedsToReleaseClient ?h then [Release (Some c)] else [])"
      by auto
    have e: "execute (Some c) (Some r) s p = (x, s')" using assms(6) c(1) by simp
    have c1: "v = Begin \<or> \<not> transactionNeedsToAcquireClient ?h" using c(2) by simp
    have c2: "transactionNeedsToAcquireClient ?h \<or> transactionClientPromise ?h \<noteq> Some False"
      using True by simp
    have cl: "Some c = (if transactionNeedsToAcquireClient ?h then Some c
        else transactionClient ?h)"
      using True by simp
    note E = execute_override_facts [OF assms(1-4) c1 c2 e cl]
    have "bk_of (obj s' txn) = k'"
      unfolding k' E(5) using True by (simp add: bk_of_def)
    moreover have "events s' = ev'" using E(4) True by (simp add: ev')
    ultimately show ?thesis using E(1,2,3,6,7) by (simp add: E(5))
  next
    case False
    then have "\<not> b_acquire (bk_of ?h)" by simp
    from abs_exec_plain [OF this assms(5)]
    have pr: "transactionClientPromise ?h \<noteq> Some False"
      and k': "k' = (bk_of ?h)\<lparr>b_client :=
            (if transactionNeedsToReleaseClient ?h then None else transactionClient ?h),
          b_release := False\<rparr>"
      and ev': "ev' = events s @ [Statement (Some v) (transactionClient ?h)] @
             (if transactionNeedsToReleaseClient ?h then [Release (transactionClient ?h)]
              else [])"
      by auto
    have e: "execute (Some 0) (Some r) s p = (x, s')"
      using execute_acq_irrelevant [OF assms(3) False, of "Some 0" "Some r" a] assms(6) by simp
    have c1: "v = Begin \<or> \<not> transactionNeedsToAcquireClient ?h" using False by simp
    have c2: "transactionNeedsToAcquireClient ?h \<or> transactionClientPromise ?h \<noteq> Some False"
      using pr by simp
    have cl: "transactionClient ?h = (if transactionNeedsToAcquireClient ?h then Some 0
        else transactionClient ?h)"
      using False by simp
    note E = execute_override_facts [OF assms(1-4) c1 c2 e cl]
    have "bk_of (obj s' txn) = k'"
      unfolding k' E(5) using False by (simp add: bk_of_def)
    moreover have "events s' = ev'" using E(4) False by (simp add: ev')
    ultimately show ?thesis using E(1,2,3,6,7) by (simp add: E(5))
  qed
  then have H: "x = Inr (applyTransforms s p r)" "wf s'" "length (objs s') = length (objs s)"
    "events s' = ev'" "bk_of (obj s' txn) = k'"
    "transaction (obj s' txn) = transaction ?h"
    "transactionSQLOverride (obj s' txn) = transactionSQLOverride ?h"
    "\<And>p'. p' \<noteq> txn \<Longrightarrow> obj s' p' = obj s p'"
    "\<And>p' r'. applyTransforms s' p' r' = applyTransforms s p' r'"
    by blast+
  show "x = Inr (applyTransforms s p r)" "wf s'" "length (objs s') = length (objs s)"
    "events s' = ev'" "bk_of (obj s' txn) = k'"
    "applyTransforms s' p' r' = applyTransforms s p' r'"
    by (rule H)+
  show "transaction (obj s' p') = transaction (obj s p')"
    "transactionSQLOverride (obj s' p') = transactionSQLOverride (obj s p')"
    using H(6,7) H(8) [of p'] by (cases "p' = txn"; simp)+
qed

lemma run_steps_refines:
  assumes "abs_run w bs vs (map fst io) (k, ev) = Some (k', ev')"
    and "wf s" "txn < length (objs s)" "transaction (obj s txn) = Some txn"
    and "bk_of (obj s txn) = k" "events s = ev"
    and "list_all2 (bound_to txn A s) qs vs"
    and "\<forall>r. applyTransforms s txn r = A r"
  shows "\<exists>s'. run_steps w txn bs qs io s = Some (map (\<lambda>ar. Inr (A (snd ar))) io, s') \<and>
           events s' = ev'"
  using assms
proof (induction w arbitrary: bs vs io k ev s qs)
  case Nil
  then have "bs = []" "vs = []" "io = []"
    by (auto split: if_splits)
  moreover have "qs = []" using Nil.prems(7) \<open>vs = []\<close> by simp
  ultimately show ?case using Nil.prems by simp
next
  case (Cons st w)
  show ?case
  proof (cases st)
    case Build
    obtain b bs' where bs: "bs = b # bs'"
      using Cons.prems(1) Build by (cases bs) auto
    obtain d s1 where b: "build_on b s txn = (d, s1)" by (cases "build_on b s txn")
    note S = build_on_step [OF Cons.prems(2-4) b]
    have a: "abs_run w bs' (vs @ [b]) (map fst io) (abs_build b k, ev) = Some (k', ev')"
      using Cons.prems(1) by (simp add: Build bs)
    have t1: "txn < length (objs s1)" using Cons.prems(3) S(2) by simp
    have tt: "transaction (obj s1 txn) = Some txn"
      using S(9) [OF Cons.prems(3)] Cons.prems(4) by simp
    have old: "bound_to txn A s1 p v" if "bound_to txn A s p v" for p v
      using that S(2) S(9) [of p] S(10) [of p] S(11) [of p] by (simp add: bound_to_def)
    have new: "bound_to txn A s1 d b"
      using S(2,3,6,7,8) Cons.prems(8) by (simp add: bound_to_def)
    have l: "list_all2 (bound_to txn A s1) (qs @ [d]) (vs @ [b])"
      using list_all2_mono [OF Cons.prems(7), of "bound_to txn A s1"] old new
      by (intro list_all2_appendI) auto
    have ap: "\<forall>r. applyTransforms s1 txn r = A r"
      using S(11) [OF Cons.prems(3)] Cons.prems(8) by simp
    have "\<exists>s'. run_steps w txn bs' (qs @ [d]) io s1 =
        Some (map (\<lambda>ar. Inr (A (snd ar))) io, s') \<and> events s' = ev'"
      using a S(1) t1 tt _ _ l ap
    proof (rule Cons.IH)
      show "bk_of (obj s1 txn) = abs_build b k" using S(5) Cons.prems(5) by simp
      show "events s1 = ev" using S(4) Cons.prems(6) by simp
    qed
    then show ?thesis by (simp add: Build bs b)
  next
    case Execute
    obtain v vs' where vs: "vs = v # vs'"
      using Cons.prems(1) Execute by (cases vs) auto
    obtain ar io' where io: "io = ar # io'"
      using Cons.prems(1) Execute vs by (cases io) auto
    obtain p qs' where qs: "qs = p # qs'" and pv: "bound_to txn A s p v"
      and rest: "list_all2 (bound_to txn A s) qs' vs'"
      using Cons.prems(7) vs by (auto simp add: list_all2_Cons2)
    obtain k1 ev1 where ae: "abs_exec (fst ar) v (k, ev) = Some (k1, ev1)"
      and a: "abs_run w bs vs' (map fst io') (k1, ev1) = Some (k', ev')"
      using Cons.prems(1) by (auto simp add: Execute vs io split: option.splits)
    obtain x s1 where e: "execute (fst ar) (Some (snd ar)) s p = (x, s1)"
      by (cases "execute (fst ar) (Some (snd ar)) s p")
    have ae': "abs_exec (fst ar) v (bk_of (obj s txn), events s) = Some (k1, ev1)"
      using ae Cons.prems(5,6) by simp
    have p: "p < length (objs s)" "transaction (obj s p) = Some txn"
      "transactionSQLOverride (obj s p) = Some v" "\<forall>r. applyTransforms s p r = A r"
      using pv by (simp_all add: bound_to_def)
    note E = execute_step [OF Cons.prems(2) p(1-3) ae' e]
    have x: "x = Inr (A (snd ar))" using E(1) p(4) by simp
    have t1: "txn < length (objs s1)" using Cons.prems(3) E(3) by simp
    have tt: "transaction (obj s1 txn) = Some txn" using E(6) [of txn] Cons.prems(4) by simp
    have old: "bound_to txn A s1 p v" if "bound_to txn A s p v" for p v
      using that E(3) E(6) [of p] E(7) [of p] E(8) [of p] by (simp add: bound_to_def)
    have l: "list_all2 (bound_to txn A s1) qs' vs'"
      using list_all2_mono [OF rest, of "bound_to txn A s1"] old by blast
    have ap: "\<forall>r. applyTransforms s1 txn r = A r"
      using E(8) [of txn] Cons.prems(8) by simp
    have "\<exists>s'. run_steps w txn bs qs' io' s1 =
        Some (map (\<lambda>ar. Inr (A (snd ar))) io', s') \<and> events s' = ev'"
      using a E(2) t1 tt E(5,4) l ap by (rule Cons.IH)
    then show ?thesis by (auto simp add: Execute qs io e x)
  qed
qed

lemma words_all: "length w = n \<Longrightarrow> w \<in> set (words n)"
proof (induction n arbitrary: w)
  case 0
  then show ?case by simp
next
  case (Suc n)
  obtain x w' where w: "w = x # w'" "length w' = n" using Suc.prems by (cases w) auto
  then show ?case using Suc.IH [of w'] by (cases x) auto
qed

lemma admissible_length: "admissible w waiting left \<Longrightarrow> length w = waiting + 2 * left"
proof (induction w arbitrary: waiting left)
  case Nil
  then show ?case by simp
next
  case (Cons x w)
  then show ?case by (cases x) fastforce+
qed

lemma schedules_eq:
  "schedules =
     [[Build, Build, Build, Execute, Execute, Execute, Execute],
      [Build, Build, Execute, Build, Execute, Execute, Execute],
      [Build, Build, Execute, Execute, Build, Execute, Execute],
      [Build, Build, Execute, Execute, Execute, Build, Execute],
      [Build, Execute, Build, Build, Execute, Execute, Execute],
      [Build, Execute, Build, Execute, Build, Execute, Execute],
      [Build, Execute, Build, Execute, Execute, Build, Execute],
      [Build, Execute, Execute, Build, Build, Execute, Execute],
      [Build, Execute, Execute, Build, Execute, Build, Execute],
      [Execute, Build, Build, Build, Execute, Execute, Execute],
      [Execute, Build, Build, Execute, Build, Execute, Execute],
      [Execute, Build, Build, Execute, Execute, Build, Execute],
      [Execute, Build, Execute, Build, Build, Execute, Execute],
      [Execute, Build, Execute, Build, Execute, Build, Execute]]"
  by code_simp

lemma admissible_schedules: "admissible w 1 3 \<Longrightarrow> w \<in> set schedules"
  using admissible_length [of w 1 3] words_all [of w 7] by (simp add: schedules_def)

lemma ends_with_iff:
  "(\<exists>pre. w = pre @ [x, y]) \<longleftrightarrow> 2 \<le> length w \<and> drop (length w - 2) w = [x, y]"
proof
  assume "\<exists>pre. w = pre @ [x, y]"
  then show "2 \<le> length w \<and> drop (length w - 2) w = [x, y]" by auto
next
  assume a: "2 \<le> length w \<and> drop (length w - 2) w = [x, y]"
  have "w = List.take (length w - 2) w @ drop (length w - 2) w" by simp
  then have "w = List.take (length w - 2) w @ [x, y]" using a by simp
  then show "\<exists>pre. w = pre @ [x, y]" by blast
qed

lemma abs_schedules:
  assumes "w \<in> set schedules"
  shows "\<exists>k E. abs_run w [Begin, Commit, Commit] [Begin] [Some c, a2, a3, a4]
        (\<lparr>b_depth = Num 1, b_acquire = True, b_release = False, b_closed = False,
          b_client = None, b_promise = None\<rparr>, ev) = Some (k, ev @ E) \<and>
     (E = [Acquire (Some c), Statement (Some Begin) (Some c), Statement (Some Begin) (Some c),
           Statement (Some Commit) (Some c), Statement (Some Commit) (Some c),
           Release (Some c)] \<longleftrightarrow> (\<exists>pre. w = pre @ [Build, Execute]))"
  using assms unfolding schedules_eq ends_with_iff
  by (elim disjE | simp add: abs_build_def abs_exec_def)+

section \<open>The concrete stores\<close>

lemma entry_store_wf: "wf entry_store"
  by (simp add: wf_def wf_query_def entry_store_def blank_query_def)

lemma begun_store_eval:
  "objs begun_store = [blank_query EntryQuery 0,
     (blank_query EntryQuery 2)\<lparr>transactionSQLOverride := Some Begin, transaction := Some 1,
        transactionDepth := Num 1, transactionNeedsToAcquireClient := True\<rparr>]"
  "strs begun_store = []"
  "fns begun_store = [[], [], []]"
  "events begun_store = []"
  by (simp_all add: begun_store_def begin_query_def dup_def new_query_def take_def
      take_transaction_def take_transform_def slice_fns_def upd_def obj_def entry_store_def
      blank_query_def prepareForTransactionClientAcquire_def)

lemma begun_store_wf: "wf begun_store"
  by (simp add: wf_def wf_query_def begun_store_eval blank_query_def)

lemma begun_store_handle:
  "transaction (obj begun_store (Suc 0)) = Some (Suc 0)"
  "transactionSQLOverride (obj begun_store (Suc 0)) = Some Begin"
  "transactionDepth (obj begun_store (Suc 0)) = Num 1"
  "transactionNeedsToAcquireClient (obj begun_store (Suc 0))"
  "\<not> transactionNeedsToReleaseClient (obj begun_store (Suc 0))"
  "\<not> transactionClosed (obj begun_store (Suc 0))"
  "transactionClient (obj begun_store (Suc 0)) = None"
  "transactionClientPromise (obj begun_store (Suc 0)) = None"
  by (simp_all add: begun_store_eval obj_def blank_query_def)

section \<open>Claims about transactions\<close>

text \<open>
  C7, as amended.  A query that is bound to a transaction handle which still needs to
  acquire its client, and that is not itself a \<^verbatim>\<open>begin\<close> query, fails validation
  with "Must execute `begin` query before using transaction."; its execution fails
  with that error and leaves the store as it was, so the pool is not asked for a
  client and no statement reaches a connection.
\<close>

theorem pending_acquire_rejects_non_begin:
  assumes "transaction (obj s q) = Some t"
    and "transactionNeedsToAcquireClient (obj s t)"
    and "transactionSQLOverride (obj s q) \<noteq> Some Begin"
  shows "validateBeforeTransactionExecution s q = Inl MustExecuteBegin \<and>
         execute acq drv s q = (Inl MustExecuteBegin, s)"
  using assms
  by (simp add: validateBeforeTransactionExecution_def execute_def beforeTransactionExecution_def)

text \<open>
  Witness for C7: \<^verbatim>\<open>txn = db.query.begin(); txn.commit().execute()\<close> without
  executing \<^verbatim>\<open>txn\<close>; the commit query is object 2.
\<close>

theorem pending_acquire_rejects_non_begin_witness:
  "transaction (obj (snd (commit begun_store 1)) 2) = Some 1 \<and>
   transactionNeedsToAcquireClient (obj (snd (commit begun_store 1)) 1) \<and>
   transactionSQLOverride (obj (snd (commit begun_store 1)) 2) \<noteq> Some Begin \<and>
   validateBeforeTransactionExecution (snd (commit begun_store 1)) 2 = Inl MustExecuteBegin \<and>
   execute (Some 7) (Some 0) (snd (commit begun_store 1)) 2 =
     (Inl MustExecuteBegin, snd (commit begun_store 1))"
proof -
  let ?s = "snd (commit begun_store (Suc 0)) :: (nat, unit) state"
  have c: "commit begun_store (Suc 0) = (2, ?s)"
    using commit_eq [OF begun_store_wf, of "Suc 0"] by (simp add: begun_store_eval)
  have r: "Commit = Commit \<and> commit begun_store (Suc 0) = (2, ?s) \<or>
      Commit = Rollback \<and> rollback begun_store (Suc 0) = (2, ?s)"
    using c by simp
  have l: "Suc 0 < length (objs begun_store)" by (simp add: begun_store_eval)
  note b = release_bound [OF begun_store_wf l begun_store_handle(1) r]
  have 1: "transaction (obj ?s 2) = Some (Suc 0)"
    using b by (simp add: dup_obj_def begun_store_handle)
  have 2: "transactionNeedsToAcquireClient (obj ?s (Suc 0))"
    using b by (simp add: begun_store_handle)
  have 3: "transactionSQLOverride (obj ?s 2) \<noteq> Some Begin"
    using b by simp
  show ?thesis
    using 1 2 3 pending_acquire_rejects_non_begin [OF 1 2 3, of "Some 7" "Some 0"] by simp
qed

text \<open>
  Counterexample to C7 as stated ("any query"): the \<^verbatim>\<open>begin\<close> query itself is
  bound to the pending handle and passes validation; executing it asks the pool for a
  client and sends the statement.
\<close>

theorem pending_acquire_admits_begin:
  "transaction (obj begun_store (Suc 0)) = Some 1 \<and>
   transactionNeedsToAcquireClient (obj begun_store (Suc 0)) \<and>
   validateBeforeTransactionExecution begun_store 1 = Inr True \<and>
   fst (execute (Some 7) (Some 0) begun_store 1) = Inr 0 \<and>
   events (snd (execute (Some 7) (Some 0) begun_store 1)) =
     [Acquire (Some 7), Statement (Some Begin) (Some 7)]"
proof -
  obtain x s' where e: "execute (Some 7) (Some 0) begun_store (Suc 0) = (x, s')"
    by (cases "execute (Some 7) (Some (0::nat)) begun_store (Suc 0)")
  have l: "Suc 0 < length (objs begun_store)" by (simp add: begun_store_eval)
  have "x = Inr (applyTransforms begun_store (Suc 0) 0) \<and>
      events s' = [Acquire (Some 7), Statement (Some Begin) (Some 7)]"
    using execute_override [OF begun_store_wf l begun_store_handle(1,2) _ _ e refl]
    by (simp add: begun_store_handle begun_store_eval)
  moreover have "applyTransforms begun_store (Suc 0) 0 = 0"
    by (simp add: applyTransforms_def begun_store_eval obj_def blank_query_def)
  ultimately show ?thesis
    by (simp add: e begun_store_handle validateBeforeTransactionExecution_def)
qed

text \<open>
  C9.  Building a \<^verbatim>\<open>commit()\<close> or \<^verbatim>\<open>rollback()\<close> query on a query bound to a
  handle changes the handle at once, before anything is executed (the event log is
  unchanged): the depth is decremented; if it was 1 the handle is marked closed and
  marked for release, otherwise these flags stay; every query that was bound to the
  handle stays bound to it, and, when the depth was 1, one without an override now
  fails validation with the closed-transaction error (provided the handle has
  acquired its client, since that check comes first).
\<close>

theorem commit_rollback_mutate_handle_at_build:
  assumes "wf s" "q < length (objs s)" "transaction (obj s q) = Some t"
    and "transactionDepth (obj s t) = Num n"
    and "m = MCommit \<or> m = MRollback"
    and "mutate m s q = (d, s')"
  shows "events s' = events s \<and>
     transactionDepth (obj s' t) = Num (n - 1) \<and>
     (if n = 1
      then transactionClosed (obj s' t) \<and> transactionNeedsToReleaseClient (obj s' t)
      else transactionClosed (obj s' t) = transactionClosed (obj s t) \<and>
           transactionNeedsToReleaseClient (obj s' t) = transactionNeedsToReleaseClient (obj s t)) \<and>
     (\<forall>p < length (objs s). transaction (obj s p) = Some t \<longrightarrow>
        transaction (obj s' p) = Some t \<and>
        (n = 1 \<and> transactionSQLOverride (obj s p) = None \<and>
           \<not> transactionNeedsToAcquireClient (obj s t) \<longrightarrow>
         validateBeforeTransactionExecution s' p = Inl CannotExecuteClosed))"
proof -
  define v where "v = (if m = MCommit then Commit else Rollback)"
  have v: "(v = Commit \<and> commit s q = (d, s')) \<or> (v = Rollback \<and> rollback s q = (d, s'))"
    using assms(5,6) by (auto simp: v_def)
  note r = release_bound [OF assms(1-3) v]
  have t: "obj s' t = release_prep (obj s t)" using r by simp
  have old: "obj s' p = obj s p" if "p < length (objs s)" "p \<noteq> t" for p
    using r that by simp
  have bound: "transaction (obj s' p) = Some t \<and>
      transactionSQLOverride (obj s' p) = transactionSQLOverride (obj s p)"
    if "p < length (objs s)" "transaction (obj s p) = Some t" for p
    using that old [of p] t by (cases "p = t") simp_all
  have flags: "transactionDepth (obj s' t) = Num (n - 1)"
     "n = 1 \<Longrightarrow> transactionClosed (obj s' t) \<and> transactionNeedsToReleaseClient (obj s' t)"
     "n \<noteq> 1 \<Longrightarrow> transactionClosed (obj s' t) = transactionClosed (obj s t) \<and>
           transactionNeedsToReleaseClient (obj s' t) = transactionNeedsToReleaseClient (obj s t)"
     "transactionNeedsToAcquireClient (obj s' t) = transactionNeedsToAcquireClient (obj s t)"
    using assms(4) by (simp_all add: t release_prep_def)
  have val: "validateBeforeTransactionExecution s' p = Inl CannotExecuteClosed"
    if "p < length (objs s)" "transaction (obj s p) = Some t" "n = 1"
       "transactionSQLOverride (obj s p) = None" "\<not> transactionNeedsToAcquireClient (obj s t)" for p
    using bound [OF that(1,2)] flags(2) [OF that(3)] flags(4) that(4,5)
    by (simp add: validateBeforeTransactionExecution_def)
  show ?thesis
    using r flags bound val by auto
qed

text \<open>
  Witness for C9: \<^verbatim>\<open>txn = db.query.begin(); txn.commit()\<close>; the handle is
  object 1 at depth 1.
\<close>

theorem commit_rollback_mutate_handle_at_build_witness:
  "wf begun_store \<and> 1 < length (objs begun_store) \<and>
   transaction (obj begun_store (Suc 0)) = Some 1 \<and>
   transactionDepth (obj begun_store (Suc 0)) = Num 1 \<and>
   events (snd (mutate MCommit begun_store 1)) = events begun_store \<and>
   transactionDepth (obj (snd (mutate MCommit begun_store 1)) 1) = Num 0 \<and>
   transactionClosed (obj (snd (mutate MCommit begun_store 1)) 1) \<and>
   transactionNeedsToReleaseClient (obj (snd (mutate MCommit begun_store 1)) 1)"
proof -
  have l: "Suc 0 < length (objs begun_store)" by (simp add: begun_store_eval)
  have m: "mutate MCommit begun_store (Suc 0) =
      (fst (mutate MCommit begun_store (Suc 0)), snd (mutate MCommit begun_store (Suc 0)))"
    by simp
  show ?thesis
    using commit_rollback_mutate_handle_at_build
      [OF begun_store_wf l begun_store_handle(1) begun_store_handle(3) disjI1 [OF refl] m]
      begun_store_wf l begun_store_handle(1,3)
    by simp
qed

text \<open>
  C8, as amended.  For a query bound to a closed handle that has acquired its client,
  validation fails with the closed-transaction error exactly when the query has no
  statement override; a query with any override (\<^verbatim>\<open>begin\<close>, \<^verbatim>\<open>commit\<close>,
  \<^verbatim>\<open>rollback\<close>) passes validation.  Executing a query without an override then
  fails with that error and changes nothing.
\<close>

theorem closed_handle_rejects_plain_queries:
  assumes "transaction (obj s q) = Some t"
    and "transactionClosed (obj s t)"
    and "\<not> transactionNeedsToAcquireClient (obj s t)"
  shows "validateBeforeTransactionExecution s q =
           (if transactionSQLOverride (obj s q) = None then Inl CannotExecuteClosed else Inr True) \<and>
         (transactionSQLOverride (obj s q) = None \<longrightarrow>
            execute acq drv s q = (Inl CannotExecuteClosed, s))"
  using assms
  by (auto simp add: validateBeforeTransactionExecution_def execute_def
      beforeTransactionExecution_def Let_def)

text \<open>
  Witness for C8: a query duplicated from the closed handle of \<open>late_begin_store\<close>
  by a clause mutator (object 5) has no override and is rejected.
\<close>

theorem closed_handle_rejects_plain_queries_witness:
  "transaction (obj (snd (clause_mutator id late_begin_store 1)) 5) = Some 1 \<and>
   transactionClosed (obj (snd (clause_mutator id late_begin_store 1)) 1) \<and>
   \<not> transactionNeedsToAcquireClient (obj (snd (clause_mutator id late_begin_store 1)) 1) \<and>
   transactionSQLOverride (obj (snd (clause_mutator id late_begin_store 1)) 5) = None \<and>
   validateBeforeTransactionExecution (snd (clause_mutator id late_begin_store 1)) 5 =
     Inl CannotExecuteClosed \<and>
   execute (Some 8) (Some 0) (snd (clause_mutator id late_begin_store 1)) 5 =
     (Inl CannotExecuteClosed, snd (clause_mutator id late_begin_store 1))"
proof -
  let ?s = "snd (clause_mutator id late_begin_store 1) :: (nat, unit) state"
  have 1: "transaction (obj ?s 5) = Some 1" by code_simp
  have 2: "transactionClosed (obj ?s 1)" by code_simp
  have 3: "\<not> transactionNeedsToAcquireClient (obj ?s 1)" by code_simp
  have 4: "transactionSQLOverride (obj ?s 5) = None" by code_simp
  show ?thesis
    using closed_handle_rejects_plain_queries [OF 1 2 3, of "Some 8" "Some 0"] 1 2 3 4
    by simp
qed

text \<open>
  Counterexample to C8 as stated: in \<open>late_begin_store\<close> the handle (object 1) is
  closed at depth 0 by its terminal statement (the commit, object 4).  The nested
  \<^verbatim>\<open>begin\<close> query (object 2) is bound to the handle and is not the terminal
  statement, yet it passes validation, and executing it sends its statement, on no
  transaction client.
\<close>

theorem closed_handle_admits_late_begin:
  "transactionClosed (obj late_begin_store 1) \<and>
   transactionDepth (obj late_begin_store 1) = Num 0 \<and>
   transaction (obj late_begin_store 2) = Some 1 \<and>
   transaction (obj late_begin_store 4) = Some 1 \<and>
   transactionSQLOverride (obj late_begin_store 4) = Some Commit \<and>
   validateBeforeTransactionExecution late_begin_store 2 = Inr True \<and>
   fst (execute None (Some 0) late_begin_store 2) = Inr 0 \<and>
   events (snd (execute None (Some 0) late_begin_store 2)) =
     events late_begin_store @ [Statement (Some Begin) None]"
  by code_simp


text \<open>
  C1, as amended.  Start from any query \<open>q\<close> that is not bound to a transaction and
  build \<^verbatim>\<open>txn = q.begin()\<close>.  Then \<^verbatim>\<open>txn.begin()\<close>, \<^verbatim>\<open>txn.commit()\<close> and
  \<^verbatim>\<open>txn.commit()\<close> are built, in this order, and \<^verbatim>\<open>txn\<close> and these three
  queries are executed, in this order, each after it has been built; builds and
  executions interleave in any way that this allows (\<open>admissible\<close>).  The pool
  delivers client \<open>c\<close> to the first execution and every statement succeeds.  Then
  all four executions return the driver's result, and the events added to the log
  are one acquisition (by the first \<^verbatim>\<open>begin\<close>), the four statements on client
  \<open>c\<close>, and one release after the second commit's statement, exactly when the
  second \<^verbatim>\<open>commit()\<close> is built only after the first commit has been executed,
  that is, when the schedule ends with this build and its execution.  Whatever the
  pool would have answered to the later executions (\<open>a2\<close>, \<open>a3\<close>, \<open>a4\<close>) is never
  asked for.
\<close>

theorem nested_transaction_acquires_and_releases_once:
  assumes "wf s" "q < length (objs s)" "transaction (obj s q) = None"
    and "admissible steps 1 3"
  shows "\<exists>s'. transaction_chain steps [(Some c, r1), (a2, r2), (a3, r3), (a4, r4)] s q =
           Some ([Inr (applyTransforms s q r1), Inr (applyTransforms s q r2),
                  Inr (applyTransforms s q r3), Inr (applyTransforms s q r4)], s') \<and>
         (events s' = events s @
            [Acquire (Some c),
             Statement (Some Begin) (Some c),
             Statement (Some Begin) (Some c),
             Statement (Some Commit) (Some c),
             Statement (Some Commit) (Some c),
             Release (Some c)]
          \<longleftrightarrow> (\<exists>pre. steps = pre @ [Build, Execute]))"
proof -
  obtain txn s1 where b1: "begin_query s q = (txn, s1)" by (cases "begin_query s q")
  note F = begin_unbound_facts [OF assms(1-3) b1]
  let ?k0 = "\<lparr>b_depth = Num 1, b_acquire = True, b_release = False, b_closed = False,
          b_client = None, b_promise = None\<rparr>"
  let ?io = "[(Some c, r1), (a2, r2), (a3, r3), (a4, r4)]"
  let ?A = "applyTransforms s q"
  obtain k E where a: "abs_run steps [Begin, Commit, Commit] [Begin] [Some c, a2, a3, a4]
        (?k0, events s) = Some (k, events s @ E)"
    and E: "E = [Acquire (Some c), Statement (Some Begin) (Some c),
           Statement (Some Begin) (Some c), Statement (Some Commit) (Some c),
           Statement (Some Commit) (Some c), Release (Some c)]
        \<longleftrightarrow> (\<exists>pre. steps = pre @ [Build, Execute])"
    using abs_schedules [OF admissible_schedules [OF assms(4)], of c a2 a3 a4 "events s"]
    by blast
  have a': "abs_run steps [Begin, Commit, Commit] [Begin] (map fst ?io) (?k0, events s) =
      Some (k, events s @ E)"
    using a by simp
  have k0: "bk_of (obj s1 txn) = ?k0"
    by (simp add: bk_of_def F(7-12))
  have bt: "list_all2 (bound_to txn ?A s1) [txn] [Begin]"
    by (simp add: bound_to_def F(3,5,6,13))
  have ap: "\<forall>r. applyTransforms s1 txn r = ?A r" by (simp add: F(13))
  obtain s' where r: "run_steps steps txn [Begin, Commit, Commit] [txn] ?io s1 =
      Some (map (\<lambda>ar. Inr (?A (snd ar))) ?io, s')" and ev: "events s' = events s @ E"
    using run_steps_refines [OF a' F(2,3,5) k0 F(4) bt ap] by blast
  have "transaction_chain steps ?io s q =
      Some ([Inr (?A r1), Inr (?A r2), Inr (?A r3), Inr (?A r4)], s')"
    using r by (simp add: transaction_chain_def b1)
  moreover have "events s' = events s @
            [Acquire (Some c), Statement (Some Begin) (Some c),
             Statement (Some Begin) (Some c), Statement (Some Commit) (Some c),
             Statement (Some Commit) (Some c), Release (Some c)]
          \<longleftrightarrow> (\<exists>pre. steps = pre @ [Build, Execute])"
    using E by (simp add: ev)
  ultimately show ?thesis by blast
qed

text \<open>
  Witness for C1: the chain started from \<^verbatim>\<open>db.query\<close>, on client 7, each query
  built and executed before the next is built.
\<close>

theorem nested_transaction_acquires_and_releases_once_witness:
  "wf entry_store \<and> 0 < length (objs entry_store) \<and>
   transaction (obj entry_store 0) = None \<and>
   admissible [Execute, Build, Execute, Build, Execute, Build, Execute] 1 3 \<and>
   map_option fst (transaction_chain [Execute, Build, Execute, Build, Execute, Build, Execute]
      [(Some 7, 1), (None, 2), (None, 3), (None, 4)] entry_store 0) =
     Some [Inr 1, Inr 2, Inr 3, Inr 4] \<and>
   map_option (events \<circ> snd)
     (transaction_chain [Execute, Build, Execute, Build, Execute, Build, Execute]
        [(Some 7, 1), (None, 2), (None, 3), (None, 4)] entry_store 0) =
     Some [Acquire (Some 7),
           Statement (Some Begin) (Some 7),
           Statement (Some Begin) (Some 7),
           Statement (Some Commit) (Some 7),
           Statement (Some Commit) (Some 7),
           Release (Some 7)]"
proof -
  let ?w = "[Execute, Build, Execute, Build, Execute, Build, Execute]"
  have w: "wf entry_store"
    by (simp add: wf_def wf_query_def entry_store_def blank_query_def)
  have l: "0 < length (objs entry_store)" by (simp add: entry_store_def)
  have t: "transaction (obj entry_store 0) = None"
    by (simp add: entry_store_def obj_def blank_query_def)
  have e: "events entry_store = []" by (simp add: entry_store_def)
  have a: "applyTransforms entry_store 0 r = r" for r
    by (simp add: applyTransforms_def entry_store_def obj_def blank_query_def)
  have ad: "admissible ?w 1 3" by simp
  have p: "\<exists>pre. ?w = pre @ [Build, Execute]"
    by (rule exI [of _ "[Execute, Build, Execute, Build, Execute]"]) simp
  show ?thesis
    using nested_transaction_acquires_and_releases_once [OF w l t ad, of 7 1 None 2 None 3 None 4]
      w l t ad p
    by (auto simp add: e a)
qed

text \<open>
  Counterexample to C1 as stated: the same chain from \<^verbatim>\<open>db.query\<close> with the four
  queries built before the first is executed.  Both \<^verbatim>\<open>commit()\<close> calls have
  then closed the handle and scheduled the release, so the client is released after
  the first \<^verbatim>\<open>begin\<close>, not after the second commit, and the other three
  statements do not run on the transaction's client.
\<close>

theorem built_ahead_commits_release_after_first_begin:
  "map_option (events \<circ> snd)
     (transaction_chain [Build, Build, Build, Execute, Execute, Execute, Execute]
        [(Some 7, 1), (Some 7, 2), (Some 7, 3), (Some 7, 4)] entry_store 0) =
     Some [Acquire (Some 7),
           Statement (Some Begin) (Some 7),
           Release (Some 7),
           Statement (Some Begin) None,
           Statement (Some Commit) None,
           Statement (Some Commit) None] \<and>
   map_option fst
     (transaction_chain [Build, Build, Build, Execute, Execute, Execute, Execute]
        [(Some 7, 1), (Some 7, 2), (Some 7, 3), (Some 7, 4)] entry_store 0) =
     Some [Inr 1, Inr 2, Inr 3, Inr 4]"
  by code_simp

section \<open>Claims about duplication and transforms\<close>

text \<open>
  C2.  Let \<open>m\<close> be any of the mutators (\<^verbatim>\<open>transform\<close>, the \<^verbatim>\<open>transaction\<close>
  setter, \<^verbatim>\<open>begin\<close>, \<^verbatim>\<open>commit\<close>, \<^verbatim>\<open>rollback\<close>, a clause mutator) applied to a
  query \<open>q\<close> of a well-formed store.  The result \<open>d\<close> is a new object, different
  from \<open>q\<close>.  What \<open>q\<close> shows (class, adapter, contents of its tables, columns and
  transforms arrays, clause state, transaction binding, statement override) is the
  same after the call as before, and so it is for every other object of the store.
  The duplicate holds copies of the tables and columns, and of the transforms
  (followed by the new function for \<^verbatim>\<open>transform\<close>); its arrays are not arrays of
  any earlier object, so pushing onto them changes nothing that an earlier object
  shows.  (The bookkeeping fields of a transaction handle are not part of what a
  query shows; C9 is about them.)
\<close>

theorem mutators_leave_original_unchanged:
  assumes "wf s" "q < length (objs s)" "mutate m s q = (d, s')"
  shows "d \<noteq> q \<and> d = length (objs s) \<and>
     (\<forall>p < length (objs s). observe s' p = observe s p) \<and>
     o_tables (observe s' d) = o_tables (observe s q) \<and>
     o_columns (observe s' d) = o_columns (observe s q) \<and>
     o_transforms (observe s' d) =
       o_transforms (observe s q) @ (case m of MTransform fn \<Rightarrow> [fn] | _ \<Rightarrow> []) \<and>
     (\<forall>p < length (objs s).
        fn_arrays (obj s' d) \<inter> fn_arrays (obj s' p) = {} \<and>
        str_arrays (obj s' d) \<inter> str_arrays (obj s' p) = {}) \<and>
     (\<forall>p < length (objs s). \<forall>fn.
        observe (push_fn (transforms (obj s' d)) fn s') p = observe s p) \<and>
     (\<forall>p < length (objs s). \<forall>a \<in> str_arrays (obj s' d). \<forall>x.
        observe (push_str a x s') p = observe s p)"
proof -
  note N = mutate_new [OF assms]
  have refs: "transforms (obj s' d) = Suc (length (fns s))"
     "tables (obj s' d) = map_option (\<lambda>_. length (strs s)) (tables (obj s q))"
     "columns (obj s' d) = map_option (\<lambda>_. length (strs s) +
          (case tables (obj s q) of None \<Rightarrow> 0 | Some _ \<Rightarrow> 1)) (columns (obj s q))"
    using N(3) by (simp_all add: same_refs_def dup_obj_def)
  have new_fn: "\<forall>a \<in> fn_arrays (obj s' d). length (fns s) \<le> a"
    by (simp add: fn_arrays_def refs)
  have new_str: "\<forall>a \<in> str_arrays (obj s' d). length (strs s) \<le> a"
    by (auto simp add: str_arrays_def refs)
  have old_refs: "(\<forall>a \<in> fn_arrays (obj s' p). a < length (fns s)) \<and>
      (\<forall>a \<in> str_arrays (obj s' p). a < length (strs s))" if "p < length (objs s)" for p
  proof -
    have "wf_query s (obj s p)" using wf_nth [OF assms(1) that] by (simp add: obj_def)
    moreover have "same_refs (obj s' p) (obj s p)"
      using N(2) that by (simp add: preserved_def)
    ultimately show ?thesis
      by (auto simp add: wf_query_def same_refs_def fn_arrays_def str_arrays_def
          split: option.splits)
  qed
  have obs: "observe s' p = observe s p" if "p < length (objs s)" for p
    using assms(1) N(2) that by (rule preserved_observe)
  have wq: "wf_query s (obj s q)" using wf_nth [OF assms(1,2)] by (simp add: obj_def)
  have tabs: "o_tables (observe s' d) = o_tables (observe s q)"
    using wq by (cases "tables (obj s q)")
      (simp_all add: observe_def Let_def refs N(4) dup_strs_def nth_append)
  have cols: "o_columns (observe s' d) = o_columns (observe s q)"
    using wq by (cases "columns (obj s q)"; cases "tables (obj s q)")
      (simp_all add: observe_def Let_def refs N(4) dup_strs_def nth_append)
  have trs: "o_transforms (observe s' d) =
       o_transforms (observe s q) @ (case m of MTransform fn \<Rightarrow> [fn] | _ \<Rightarrow> [])"
    by (simp add: observe_def Let_def refs N(6))
  have disj: "fn_arrays (obj s' d) \<inter> fn_arrays (obj s' p) = {} \<and>
        str_arrays (obj s' d) \<inter> str_arrays (obj s' p) = {}" if "p < length (objs s)" for p
    using new_fn new_str old_refs [OF that] by fastforce
  have pf: "observe (push_fn (transforms (obj s' d)) fn s') p = observe s p"
    if "p < length (objs s)" for p fn
    using assms(1) _ that
    by (rule preserved_observe) (rule preserved_push_fn [OF N(2)], simp add: refs)
  have ps: "observe (push_str a x s') p = observe s p"
    if "p < length (objs s)" "a \<in> str_arrays (obj s' d)" for p a x
    using assms(1) _ that(1)
    by (rule preserved_observe) (rule preserved_push_str [OF N(2)], simp add: new_str that(2))
  show ?thesis
    using assms(2) N(1) obs tabs cols trs disj pf ps by simp
qed

text \<open>
  Witness for C2: \<^verbatim>\<open>transform\<close> on the select query of \<open>select_store\<close>.
\<close>

theorem mutators_leave_original_unchanged_witness:
  "wf select_store \<and> 0 < length (objs select_store) \<and>
   fst (mutate (MTransform (\<lambda>r _. r * 2)) select_store 0) = 1 \<and>
   observe (snd (mutate (MTransform (\<lambda>r _. r * 2)) select_store 0)) 0 =
     observe select_store 0 \<and>
   o_tables (observe (snd (mutate (MTransform (\<lambda>r _. r * 2)) select_store 0)) 1) =
     Some [''people''] \<and>
   o_columns (observe (snd (mutate (MTransform (\<lambda>r _. r * 2)) select_store 0)) 1) =
     Some [''firstName'', ''lastName'']"
proof -
  let ?m = "MTransform (\<lambda>r _. r * 2) :: (nat, unit) mutator"
  have w: "wf select_store"
    by (simp add: wf_def wf_query_def select_store_def blank_query_def)
  have l: "0 < length (objs select_store)" by (simp add: select_store_def)
  have m: "mutate ?m select_store 0 =
      (fst (mutate ?m select_store 0), snd (mutate ?m select_store 0))"
    by simp
  have o: "o_tables (observe select_store 0) = Some [''people'']"
      "o_columns (observe select_store 0) = Some [''firstName'', ''lastName'']"
      "length (objs select_store) = 1"
    by (simp_all add: observe_def select_store_def obj_def blank_query_def)
  show ?thesis
    using mutators_leave_original_unchanged [OF w l m] w l o by auto
qed


text \<open>
  C10.  Build \<^verbatim>\<open>q.transform(f1).transform(f2)...\<close> for a list \<open>fs\<close> of functions.
  The transform list of the resulting query is a list of its own: that of \<open>q\<close>
  followed by \<open>fs\<close> in the order given.  When \<open>q\<close> is a select query outside any
  transaction, executing the resulting query sends its statement and returns the
  left fold of \<open>fs\<close>, in the order given, over what the transforms of \<open>q\<close> make of
  the driver's result; each function receives the previous output and the class of
  the query.  Whatever \<open>q\<close> is, every successful execution of the resulting query
  returns that fold.  Two branches \<^verbatim>\<open>q.transform(f)\<close> and \<^verbatim>\<open>q.transform(g)\<close> of
  one query do not see each other's function, and \<open>q\<close> sees neither: executed after
  both are built, they return \<open>f\<close>, \<open>g\<close> and nothing applied on top of the
  transforms of \<open>q\<close>.
\<close>

theorem transforms_applied_in_order:
  assumes "wf s" "q < length (objs s)"
    and "transform_all fs s q = (d, s1)"
    and "transform f s q = (d1, t1)" "transform g t1 q = (d2, t2)"
  shows "fns s1 ! transforms (obj s1 d) = fns s ! transforms (obj s q) @ fs \<and>
         applyTransforms s1 d r =
           foldl (\<lambda>transformed fn. fn transformed (identity (obj s q)))
             (applyTransforms s q r) fs \<and>
         (identity (obj s q) = SelectQuery \<and> transaction (obj s q) = None \<and>
          transactionSQLOverride (obj s q) = None \<longrightarrow>
            execute acq (Some r) s1 d =
              (Inr (foldl (\<lambda>transformed fn. fn transformed SelectQuery)
                      (applyTransforms s q r) fs),
               emit (Statement None None) s1) \<and>
            execute acq (Some r) t2 d1 =
              (Inr (f (applyTransforms s q r) SelectQuery), emit (Statement None None) t2) \<and>
            execute acq (Some r) t2 d2 =
              (Inr (g (applyTransforms s q r) SelectQuery), emit (Statement None None) t2) \<and>
            execute acq (Some r) t2 q =
              (Inr (applyTransforms s q r), emit (Statement None None) t2)) \<and>
         (\<forall>acq drv x s2. execute acq drv s1 d = (Inr x, s2) \<longrightarrow>
            (\<exists>r0. drv = Some r0 \<and>
               x = foldl (\<lambda>transformed fn. fn transformed (identity (obj s q)))
                     (applyTransforms s q r0) fs)) \<and>
         applyTransforms t2 d1 r = f (applyTransforms s q r) (identity (obj s q)) \<and>
         applyTransforms t2 d2 r = g (applyTransforms s q r) (identity (obj s q)) \<and>
         applyTransforms t2 q r = applyTransforms s q r"
proof -
  note A = transform_all_order [OF assms(1-3)]
  have 0: "fns s1 ! transforms (obj s1 d) = fns s ! transforms (obj s q) @ fs"
    using assms(1-3) by (rule transform_all_list)
  have 1: "applyTransforms s1 d r =
           foldl (\<lambda>transformed fn. fn transformed (identity (obj s q)))
             (applyTransforms s q r) fs"
    using A by blast
  have 2: "\<exists>r0. drv = Some r0 \<and>
               x = foldl (\<lambda>transformed fn. fn transformed (identity (obj s q)))
                     (applyTransforms s q r0) fs"
    if ex: "execute acq drv s1 d = (Inr x, s2)" for acq drv x s2
  proof -
    obtain r0 where "drv = Some r0" "x = applyTransforms s1 d r0"
      using execute_result [OF ex] by blast
    then show ?thesis using A [of r0] by simp
  qed
  note F = transform_facts [OF assms(1,2,4)]
  have q1: "q < length (objs t1)" using assms(2) F(1,3) by simp
  have d1: "d1 < length (objs t1)" by (rule F(3))
  note G = transform_facts [OF F(2) q1 assms(5)]
  have 3: "applyTransforms t2 d1 r = f (applyTransforms s q r) (identity (obj s q))"
    using G(6) [OF F(3)] F(5) by simp
  have 4: "applyTransforms t2 d2 r = g (applyTransforms s q r) (identity (obj s q))"
    using G(5) F(6) [OF assms(2)] F(7) [OF assms(2)] by simp
  have 5: "applyTransforms t2 q r = applyTransforms s q r"
    using G(6) [OF q1] F(6) [OF assms(2)] by simp
  have 6: "execute acq (Some r) s1 d =
              (Inr (foldl (\<lambda>transformed fn. fn transformed SelectQuery)
                      (applyTransforms s q r) fs),
               emit (Statement None None) s1) \<and>
            execute acq (Some r) t2 d1 =
              (Inr (f (applyTransforms s q r) SelectQuery), emit (Statement None None) t2) \<and>
            execute acq (Some r) t2 d2 =
              (Inr (g (applyTransforms s q r) SelectQuery), emit (Statement None None) t2) \<and>
            execute acq (Some r) t2 q =
              (Inr (applyTransforms s q r), emit (Statement None None) t2)"
    if u: "identity (obj s q) = SelectQuery" "transaction (obj s q) = None"
      "transactionSQLOverride (obj s q) = None"
  proof -
    have bd: "identity (obj s1 d) = SelectQuery" "transaction (obj s1 d) = None"
      "transactionSQLOverride (obj s1 d) = None"
      using transform_all_binding [OF assms(1-3) u(2,3)] u(1) by simp_all
    note BF = transform_binding [OF assms(1,2,4)]
    note BG = transform_binding [OF F(2) q1 assms(5)]
    have q: "identity (obj t2 q) = SelectQuery" "transaction (obj t2 q) = None"
      "transactionSQLOverride (obj t2 q) = None"
      using G(7) [OF q1] F(7) [OF assms(2)] BG(3) [OF q1] BF(3) [OF assms(2)]
        BG(4) [OF q1] BF(4) [OF assms(2)] u by simp_all
    have b1: "identity (obj t2 d1) = SelectQuery" "transaction (obj t2 d1) = None"
      "transactionSQLOverride (obj t2 d1) = None"
      using G(7) [OF d1] F(4) BG(3) [OF d1] BF(1) BG(4) [OF d1] BF(2) u by simp_all
    have b2: "identity (obj t2 d2) = SelectQuery" "transaction (obj t2 d2) = None"
      "transactionSQLOverride (obj t2 d2) = None"
      using G(4) F(7) [OF assms(2)] BG(1) BF(3) [OF assms(2)] BG(2) u by simp_all
    show ?thesis
      using 1 3 4 5 u(1)
      by (simp add: execute_unbound [OF bd] execute_unbound [OF q]
          execute_unbound [OF b1] execute_unbound [OF b2])
  qed
  show ?thesis using 0 1 2 3 4 5 6 by blast
qed

text \<open>
  Witness for C10: the select query of \<open>select_store\<close> already adds one; the chain
  then doubles and adds three, the branches double and add ten.  The driver answers
  5 to each execution.
\<close>

theorem transforms_applied_in_order_witness:
  "wf select_store \<and> 0 < length (objs select_store) \<and>
   identity (obj select_store 0) = SelectQuery \<and>
   transaction (obj select_store 0) = None \<and>
   transactionSQLOverride (obj select_store 0) = None \<and>
   fst (execute None (Some 5)
     (snd (transform_all [\<lambda>r _. r * 2, \<lambda>r _. r + 3] select_store 0))
     (fst (transform_all [\<lambda>r _. r * 2, \<lambda>r _. r + 3] select_store 0))) = Inr 15 \<and>
   fst (execute None (Some 5)
     (snd (transform (\<lambda>r _. r + 10) (snd (transform (\<lambda>r _. r * 2) select_store 0)) 0))
     (fst (transform (\<lambda>r _. r * 2) select_store 0))) = Inr 12 \<and>
   fst (execute None (Some 5)
     (snd (transform (\<lambda>r _. r + 10) (snd (transform (\<lambda>r _. r * 2) select_store 0)) 0))
     (fst (transform (\<lambda>r _. r + 10) (snd (transform (\<lambda>r _. r * 2) select_store 0)) 0)))
       = Inr 16 \<and>
   fst (execute None (Some 5)
     (snd (transform (\<lambda>r _. r + 10) (snd (transform (\<lambda>r _. r * 2) select_store 0)) 0))
     0) = Inr 6"
proof -
  let ?fs = "[\<lambda>r _. r * 2, \<lambda>r _. r + 3] :: (nat \<Rightarrow> qclass \<Rightarrow> nat) list"
  let ?f = "\<lambda>(r::nat) (_::qclass). r * 2"
  let ?g = "\<lambda>(r::nat) (_::qclass). r + 10"
  have w: "wf select_store"
    by (simp add: wf_def wf_query_def select_store_def blank_query_def)
  have l: "0 < length (objs select_store)" by (simp add: select_store_def)
  have u: "identity (obj select_store 0) = SelectQuery"
    "transaction (obj select_store 0) = None"
    "transactionSQLOverride (obj select_store 0) = None"
    by (simp_all add: select_store_def obj_def blank_query_def)
  have a: "transform_all ?fs select_store 0 =
      (fst (transform_all ?fs select_store 0), snd (transform_all ?fs select_store 0))"
    by simp
  have b: "transform ?f select_store 0 =
      (fst (transform ?f select_store 0), snd (transform ?f select_store 0))"
    by simp
  have c: "transform ?g (snd (transform ?f select_store 0)) 0 =
      (fst (transform ?g (snd (transform ?f select_store 0)) 0),
       snd (transform ?g (snd (transform ?f select_store 0)) 0))"
    by simp
  have e: "applyTransforms select_store 0 5 = 6"
    by (simp add: applyTransforms_def select_store_def obj_def blank_query_def)
  show ?thesis
    using transforms_applied_in_order [OF w l a b c, of 5 None] w l u
    by (simp add: e)
qed

section \<open>Lemmas about aliases\<close>

declare show_nat.simps [simp del]

lemma show_nat_nonempty: "show_nat n \<noteq> []"
  by (subst show_nat.simps) simp

lemma digit_char_inj:
  assumes "m < 10" "n < 10" "digit_char m = digit_char n"
  shows "m = n"
proof -
  have "of_char (digit_char m) = (of_char (digit_char n) :: nat)" using assms(3) by simp
  then show ?thesis using assms(1,2) by (simp add: digit_char_def)
qed

lemma show_nat_inj: "show_nat m = show_nat n \<Longrightarrow> m = n"
proof (induction m arbitrary: n rule: show_nat.induct)
  case (1 m)
  show ?case
  proof (cases "m < 10")
    case True
    then have m: "show_nat m = [digit_char m]" by (subst show_nat.simps) simp
    show ?thesis
    proof (cases "n < 10")
      case n: True
      then have "show_nat n = [digit_char n]" by (subst show_nat.simps) simp
      with m "1.prems" True n show ?thesis by (auto dest: digit_char_inj)
    next
      case n: False
      then have "show_nat n = show_nat (n div 10) @ [digit_char (n mod 10)]"
        by (subst show_nat.simps) simp
      with m "1.prems" show_nat_nonempty [of "n div 10"] show ?thesis by simp
    qed
  next
    case False
    then have m: "show_nat m = show_nat (m div 10) @ [digit_char (m mod 10)]"
      by (subst show_nat.simps) simp
    show ?thesis
    proof (cases "n < 10")
      case n: True
      then have "show_nat n = [digit_char n]" by (subst show_nat.simps) simp
      with m "1.prems" show_nat_nonempty [of "m div 10"] show ?thesis by simp
    next
      case n: False
      then have "show_nat n = show_nat (n div 10) @ [digit_char (n mod 10)]"
        by (subst show_nat.simps) simp
      with m "1.prems" have e: "show_nat (m div 10) = show_nat (n div 10)"
        "digit_char (m mod 10) = digit_char (n mod 10)" by simp_all
      have "m div 10 = n div 10" using "1.IH" [OF False e(1)] .
      moreover have "m mod 10 = n mod 10" using e(2) by (auto dest!: digit_char_inj [rotated 2])
      ultimately show ?thesis by (metis div_mult_mod_eq)
    qed
  qed
qed

lemma suffixed_inj: "suffixed name m = suffixed name n \<Longrightarrow> m = n"
  by (auto simp: suffixed_def dest: show_nat_inj split: if_splits)

lemma distinct_candidates: "distinct (map (suffixed name) [0 ..< k])"
  by (simp add: distinct_map inj_on_def) (blast dest: suffixed_inj)

lemma suffixed_zero [simp]: "suffixed name 0 = name"
  by (simp add: suffixed_def)





lemma prefixes_Cons:
  "map (\<lambda>k. pre @ List.take (Suc k) (n # ns)) [0 ..< Suc (length ns)] =
     (pre @ [n]) # map (\<lambda>k. (pre @ [n]) @ List.take (Suc k) ns) [0 ..< length ns]"
proof -
  have "[0 ..< Suc (length ns)] = 0 # map Suc [0 ..< length ns]"
    by (simp add: upt_conv_Cons map_Suc_upt del: upt_Suc)
  then show ?thesis by (simp add: comp_def del: upt_Suc)
qed

lemma add_joins_spec:
  "\<exists>new. add_joins tbl pre rs js = js @ new \<and>
     map j_path new =
       filter (\<lambda>p. p \<notin> set (map j_path js))
         (map (\<lambda>k. pre @ List.take (Suc k) (map (\<lambda>x. r_name (fst x)) rs)) [0 ..< length rs]) \<and>
     (\<forall>i < length new.
        j_alias (new ! i) =
          join_alias tbl (js @ List.take i new) (last (j_path (new ! i))) (j_table (new ! i)))"
proof (induction rs arbitrary: pre js)
  case Nil
  show ?case by simp
next
  case (Cons x rs)
  obtain r m where x: "x = (r, m)" by (cases x)
  let ?names = "map (\<lambda>x. r_name (fst x)) rs"
  let ?p = "pre @ [r_name r]"
  let ?L = "map (\<lambda>k. ?p @ List.take (Suc k) ?names) [0 ..< length rs]"
  have L: "map (\<lambda>k. pre @ List.take (Suc k) (map (\<lambda>x. r_name (fst x)) (x # rs)))
             [0 ..< length (x # rs)] = ?p # ?L"
    using prefixes_Cons [of pre "r_name r" ?names] by (simp add: x del: upt_Suc)
  show ?case
  proof (cases "?p \<in> set (map j_path js)")
    case True
    obtain new where new: "add_joins tbl ?p rs js = js @ new"
        "map j_path new = filter (\<lambda>p. p \<notin> set (map j_path js)) ?L"
        "\<forall>i < length new. j_alias (new ! i) =
           join_alias tbl (js @ List.take i new) (last (j_path (new ! i))) (j_table (new ! i))"
      using Cons.IH [of ?p js] by blast
    have "add_joins tbl pre (x # rs) js = js @ new"
      using True new(1) by (simp add: x)
    moreover have "map j_path new =
        filter (\<lambda>p. p \<notin> set (map j_path js)) (?p # ?L)"
      using True new(2) by simp
    ultimately show ?thesis using new(3) unfolding L by blast
  next
    case False
    let ?j = "\<lparr>j_path = ?p, j_table = m_table m,
                j_alias = join_alias tbl js (r_name r) (m_table m)\<rparr>"
    obtain new where new: "add_joins tbl ?p rs (js @ [?j]) = (js @ [?j]) @ new"
        "map j_path new = filter (\<lambda>p. p \<notin> set (map j_path (js @ [?j]))) ?L"
        "\<forall>i < length new. j_alias (new ! i) =
           join_alias tbl ((js @ [?j]) @ List.take i new) (last (j_path (new ! i)))
             (j_table (new ! i))"
      using Cons.IH [of ?p "js @ [?j]"] by blast
    have 1: "add_joins tbl pre (x # rs) js = js @ (?j # new)"
      using False new(1) by (simp add: x)
    have "?p \<notin> set ?L" by auto
    then have "filter (\<lambda>p. p \<notin> set (map j_path (js @ [?j]))) ?L =
        filter (\<lambda>p. p \<notin> set (map j_path js)) ?L"
      by (intro filter_cong refl) auto
    then have 2: "map j_path (?j # new) =
        filter (\<lambda>p. p \<notin> set (map j_path js)) (?p # ?L)"
      using False new(2) by simp
    have 3: "j_alias ((?j # new) ! i) =
        join_alias tbl (js @ List.take i (?j # new)) (last (j_path ((?j # new) ! i)))
          (j_table ((?j # new) ! i))"
      if i: "i < length (?j # new)" for i
    proof (cases i)
      case 0
      then show ?thesis by simp
    next
      case (Suc i')
      then have "i' < length new" using i by simp
      then show ?thesis using new(3) Suc by simp
    qed
    show ?thesis using 1 2 3 unfolding L by blast
  qed
qed




lemma join_path_frame:
  assumes "join_path sch path q = Inr q'"
  shows "\<exists>new. q' = q\<lparr>q_joins := q_joins q @ new\<rparr>"
proof -
  obtain rs where "q' = q\<lparr>q_joins := add_joins (m_table (q_model q)) [] rs (q_joins q)\<rparr>"
    using assms by (auto simp: join_path_def split: sum.splits)
  then show ?thesis
    using add_joins_spec [of "m_table (q_model q)" "[]" rs "q_joins q"] by auto
qed

lemma apply_clause_grouping:
  assumes "apply_clause sch c q = Inr q'"
  shows "q_model q' = q_model q" "q_aggregate q' = q_aggregate q"
    "q_group_by q \<Longrightarrow> q_group_by q'"
    "q_group_by q' \<Longrightarrow> \<not> q_group_by q \<Longrightarrow>
       \<not> q_aggregate q \<and>
       (\<exists>p. referenced c = Some p \<and> p \<noteq> [] \<and> (\<exists>rs. resolve sch (q_model q) p = Inr rs))"
proof -
  show "q_model q' = q_model q" "q_aggregate q' = q_aggregate q"
    "q_group_by q \<Longrightarrow> q_group_by q'"
    using assms
    by (cases c; auto simp add: apply_clause_def reference_def dest: join_path_frame
          split: if_splits sum.splits)+
  assume g: "q_group_by q'" "\<not> q_group_by q"
  show "\<not> q_aggregate q \<and>
       (\<exists>p. referenced c = Some p \<and> p \<noteq> [] \<and> (\<exists>rs. resolve sch (q_model q) p = Inr rs))"
  proof (cases c)
    case (Join p)
    then show ?thesis using assms g by (auto simp add: apply_clause_def dest: join_path_frame)
  next
    case (Where p)
    then show ?thesis
      using assms g by (auto simp add: apply_clause_def reference_def split: if_splits sum.splits)
  next
    case (OrderBy p)
    then show ?thesis
      using assms g by (auto simp add: apply_clause_def reference_def split: if_splits sum.splits)
  qed
qed

lemma build_grouping:
  assumes "build sch cs q = Inr q'"
  shows "q_model q' = q_model q \<and> q_aggregate q' = q_aggregate q \<and>
     (q_group_by q' \<and> \<not> q_group_by q \<longrightarrow>
        \<not> q_aggregate q \<and>
        (\<exists>c \<in> set cs. \<exists>p. referenced c = Some p \<and> p \<noteq> [] \<and>
           (\<exists>rs. resolve sch (q_model q) p = Inr rs)))"
  using assms
proof (induction cs arbitrary: q)
  case Nil
  then show ?case by simp
next
  case (Cons c cs)
  obtain q1 where c: "apply_clause sch c q = Inr q1" and rest: "build sch cs q1 = Inr q'"
    using Cons.prems by (auto split: sum.splits)
  note A = apply_clause_grouping [OF c]
  note IH = Cons.IH [OF rest]
  have "q_model q' = q_model q" "q_aggregate q' = q_aggregate q"
    using IH A(1,2) by simp_all
  moreover have "\<not> q_aggregate q \<and>
        (\<exists>c \<in> set (c # cs). \<exists>p. referenced c = Some p \<and> p \<noteq> [] \<and>
           (\<exists>rs. resolve sch (q_model q) p = Inr rs))"
    if g: "q_group_by q'" "\<not> q_group_by q"
  proof (cases "q_group_by q1")
    case True
    then show ?thesis using A(4) g(2) by auto
  next
    case False
    then show ?thesis using IH g(1) A(1,2) by auto
  qed
  ultimately show ?case by blast
qed



section \<open>Claims about joins\<close>




text \<open>
  C4, as amended.  An explicit join changes nothing but the joins of the query, which
  it extends: the grouping is as it was.  A chain of \<^verbatim>\<open>join\<close>, \<^verbatim>\<open>where\<close> and
  \<^verbatim>\<open>orderBy\<close> clauses leaves a query grouped by its primary key that was not
  grouped only when the projection is not an aggregate and one of the clauses is a
  condition or an ordering that references a relation path of the primary entity,
  whatever the kinds of the relations on the path.
\<close>

theorem implicit_grouping:
  "(join_path sch path q = Inr q' \<longrightarrow>
      q_group_by q' = q_group_by q \<and> (\<exists>new. q' = q\<lparr>q_joins := q_joins q @ new\<rparr>)) \<and>
   (build sch cs q = Inr q'' \<and> q_group_by q'' \<and> \<not> q_group_by q \<longrightarrow>
      \<not> q_aggregate q \<and>
      (\<exists>c \<in> set cs. \<exists>p. referenced c = Some p \<and> p \<noteq> [] \<and>
         (\<exists>rs. resolve sch (q_model q) p = Inr rs)))"
proof -
  have "q_group_by q' = q_group_by q \<and> (\<exists>new. q' = q\<lparr>q_joins := q_joins q @ new\<rparr>)"
    if j: "join_path sch path q = Inr q'"
  proof -
    obtain new where "q' = q\<lparr>q_joins := q_joins q @ new\<rparr>"
      using join_path_frame [OF j] by blast
    then show ?thesis by auto
  qed
  moreover have "\<not> q_aggregate q \<and>
      (\<exists>c \<in> set cs. \<exists>p. referenced c = Some p \<and> p \<noteq> [] \<and>
         (\<exists>rs. resolve sch (q_model q) p = Inr rs))"
    if b: "build sch cs q = Inr q'' \<and> q_group_by q'' \<and> \<not> q_group_by q"
    using build_grouping [of sch cs q q''] b by blast
  ultimately show ?thesis by blast
qed

text \<open>
  Witness for C4: \<^verbatim>\<open>User.objects.join('articles')\<close> is not grouped;
  \<^verbatim>\<open>User.objects.join('articles').orderBy('-articles.pk')\<close> is not grouped
  either, the path being joined already; \<^verbatim>\<open>User.objects.orderBy('-articles.pk')\<close>
  is grouped.
\<close>

theorem implicit_grouping_witness:
  "join_path test_schema [''articles''] (objects user) =
     Inr ((objects user)\<lparr>q_joins :=
       [\<lparr>j_path = [''articles''], j_table = ''articles'', j_alias = ''articles''\<rparr>]\<rparr>) \<and>
   build test_schema [Join [''articles''], OrderBy [''articles'']] (objects user) =
     Inr ((objects user)\<lparr>q_joins :=
       [\<lparr>j_path = [''articles''], j_table = ''articles'', j_alias = ''articles''\<rparr>]\<rparr>) \<and>
   build test_schema [OrderBy [''articles'']] (objects user) =
     Inr ((objects user)\<lparr>q_joins :=
       [\<lparr>j_path = [''articles''], j_table = ''articles'', j_alias = ''articles''\<rparr>],
       q_group_by := True\<rparr>) \<and>
   \<not> q_group_by (objects user) \<and> \<not> q_aggregate (objects user)"
proof -
  let ?js = "[\<lparr>j_path = [''articles''], j_table = ''articles'', j_alias = ''articles''\<rparr>]"
  have j: "join_path test_schema [''articles''] (objects user) =
      Inr ((objects user)\<lparr>q_joins := ?js\<rparr>)"
    by code_simp
  have jo: "build test_schema [Join [''articles''], OrderBy [''articles'']] (objects user) =
      Inr ((objects user)\<lparr>q_joins := ?js\<rparr>)"
    by code_simp
  have r: "build test_schema [OrderBy [''articles'']] (objects user) =
      Inr ((objects user)\<lparr>q_joins := ?js, q_group_by := True\<rparr>)"
    by code_simp
  have g: "\<not> q_group_by (objects user)" by (simp add: objects_def)
  have "\<not> q_aggregate (objects user)"
    using implicit_grouping [of test_schema "[''articles'']" "objects user"
        "(objects user)\<lparr>q_joins := ?js\<rparr>" "[OrderBy [''articles'']]"
        "(objects user)\<lparr>q_joins := ?js, q_group_by := True\<rparr>"] j r g
    by simp
  then show ?thesis using j jo r g by simp
qed

text \<open>
  Counterexample to C4 as stated: \<^verbatim>\<open>Employee.objects.where({ 'manager.id': 1 })\<close>
  references only the to-one relation \<^verbatim>\<open>manager\<close>, and the query is grouped by
  its primary key (as the self-join test "uses the correct table when where uses
  relation" expects).
\<close>

theorem to_one_reference_is_grouped:
  "resolve test_schema employee [''manager''] =
     Inr [(\<lparr>r_name = ''manager'', r_kind = ToOne, r_target = ''employee''\<rparr>, employee)] \<and>
   build test_schema [Where [''manager'']] (objects employee) =
     Inr ((objects employee)\<lparr>q_joins :=
       [\<lparr>j_path = [''manager''], j_table = ''employees'', j_alias = ''manager''\<rparr>],
       q_group_by := True\<rparr>)"
  by code_simp

section \<open>Lemmas about saving\<close>

lemma run_statements_all:
  "list_all exec sts \<Longrightarrow> run_statements exec sts = (sts, True)"
  by (induction sts) simp_all

lemma run_statements_ok:
  "run_statements exec sts = (issued, True) \<Longrightarrow> issued = sts \<and> list_all exec sts"
  by (induction sts arbitrary: issued) (auto split: if_splits prod.splits)


section \<open>Claims about to-many relations\<close>

text \<open>
  C5.  Whatever changes are pending for the relation of an owner and whatever the
  storage does, a save either fails or succeeds.  If it fails, the owner is as
  before: its in-flight change is the one it had, the statements of a retry are the
  same, and a retry that the storage accepts issues exactly these statements and
  empties the in-flight change.  If it succeeds, exactly the statements of the flush
  were issued, the in-flight change is empty (\<^verbatim>\<open>clear\<close> false, \<^verbatim>\<open>add\<close> and
  \<^verbatim>\<open>remove\<close> empty) and a further save issues nothing.
\<close>

theorem save_in_flight:
  assumes "save exec ow = (r, issued, ow')"
  shows "(r = Inl FlushFailed \<or> r = Inr ()) \<and>
     (r = Inl FlushFailed \<longrightarrow>
        ow' = ow \<and> pending ow' = pending ow \<and> flush ow' = flush ow \<and>
        (\<forall>exec'. list_all exec' (flush ow) \<longrightarrow>
           save exec' ow' = (Inr (), flush ow, ow\<lparr>pending := no_in_flight\<rparr>))) \<and>
     (r = Inr () \<longrightarrow>
        issued = flush ow \<and>
        pending ow' = \<lparr>clear = False, add = [], remove = []\<rparr> \<and>
        flush ow' = [] \<and>
        (\<forall>exec'. save exec' ow' = (Inr (), [], ow')))"
proof -
  obtain sent ok where run: "run_statements exec (flush ow) = (sent, ok)"
    by (cases "run_statements exec (flush ow)")
  show ?thesis
  proof (cases ok)
    case True
    have i: "sent = flush ow" using run_statements_ok [of exec "flush ow" sent] run True by simp
    have r: "r = Inr ()" "issued = flush ow" "ow' = ow\<lparr>pending := no_in_flight\<rparr>"
      using assms by (simp_all add: save_def run True i)
    have f: "flush ow' = []" by (simp add: r flush_def no_in_flight_def)
    have "save exec' ow' = (Inr (), [], ow')" for exec'
      by (simp add: save_def f) (simp add: r)
    then show ?thesis using r f by (simp add: no_in_flight_def)
  next
    case False
    have r: "r = Inl FlushFailed" "ow' = ow"
      using assms by (simp_all add: save_def run False)
    have "save exec' ow' = (Inr (), flush ow, ow\<lparr>pending := no_in_flight\<rparr>)"
      if "list_all exec' (flush ow)" for exec'
      using run_statements_all [OF that] by (simp add: save_def r)
    then show ?thesis using r by simp
  qed
qed

text \<open>
  Witness for C5, the test "when adding to a hasMany fails in the database": author
  395 adds article 828, the storage rejects the save, the retry is accepted.
\<close>

theorem save_in_flight_witness:
  "save (\<lambda>_. False) (add_object (Inst 828) (load 395 ''articles'')) =
     (Inl FlushFailed, [AddRelated 395 [828]],
      add_object (Inst 828) (load 395 ''articles'')) \<and>
   pending (add_object (Inst 828) (load 395 ''articles'')) =
     \<lparr>clear = False, add = [Inst 828], remove = []\<rparr> \<and>
   save (\<lambda>_. True) (add_object (Inst 828) (load 395 ''articles'')) =
     (Inr (), [AddRelated 395 [828]],
      (add_object (Inst 828) (load 395 ''articles''))\<lparr>pending := no_in_flight\<rparr>)"
proof -
  let ?ow = "add_object (Inst 828) (load 395 ''articles'')"
  have p: "pending ?ow = \<lparr>clear = False, add = [Inst 828], remove = []\<rparr>"
    by (simp add: add_object_def load_def no_in_flight_def)
  have f: "flush ?ow = [AddRelated 395 [828]]"
    by (simp add: flush_def p) (simp add: add_object_def load_def)
  have s: "save (\<lambda>_. False) ?ow = (Inl FlushFailed, [AddRelated 395 [828]], ?ow)"
    by (simp add: save_def f)
  have "\<forall>exec'. list_all exec' (flush ?ow) \<longrightarrow>
      save exec' ?ow = (Inr (), flush ?ow, ?ow\<lparr>pending := no_in_flight\<rparr>)"
    using save_in_flight [OF s] by blast
  then have "save (\<lambda>_. True) ?ow = (Inr (), flush ?ow, ?ow\<lparr>pending := no_in_flight\<rparr>)"
    by (simp add: f)
  then show ?thesis
    using s p f by simp
qed

text \<open>
  C6.  Access to the collection cache of an owner whose relation is not loaded fails
  with the "not yet loaded" error that names the relation; so it does for a newly
  loaded instance.  After the fetch of the relation, and for every owner after an
  eager load, the access succeeds and returns the related instances of that owner in
  the order of the rows: always a sequence, and the empty one for an owner that no
  row refers to.
\<close>

theorem collection_cache_access:
  "(cache ow = None \<longrightarrow> access ow = Inl (NotYetLoaded (relation_name ow))) \<and>
   access (load k name) = Inl (NotYetLoaded name) \<and>
   access (fetch_relation rows ow) = Inr (related_of rows (owner_key ow)) \<and>
   (\<forall>ow' \<in> set (eager_load rows owners).
      access ow' = Inr (related_of rows (owner_key ow'))) \<and>
   map owner_key (eager_load rows owners) = map owner_key owners \<and>
   map inst_key (related_of rows k) = map fst (filter (\<lambda>(x, fk). fk = k) rows) \<and>
   (k \<notin> snd ` set rows \<longrightarrow> related_of rows k = [])"
proof -
  have 1: "cache ow = None \<longrightarrow> access ow = Inl (NotYetLoaded (relation_name ow))"
    by (simp add: access_def access_cache_def)
  have 2: "access (load k name) = Inl (NotYetLoaded name)"
    by (simp add: access_def access_cache_def load_def)
  have 3: "access (fetch_relation rows ow) = Inr (related_of rows (owner_key ow))" for ow
    by (simp add: access_def access_cache_def fetch_relation_def)
  have k: "owner_key (fetch_relation rows ow) = owner_key ow" for ow
    by (simp add: fetch_relation_def)
  have 5: "map owner_key (eager_load rows owners) = map owner_key owners"
    by (simp add: eager_load_def k)
  have 6: "map inst_key (related_of rows k) = map fst (filter (\<lambda>(x, fk). fk = k) rows)"
    by (simp add: related_of_def case_prod_unfold)
  have 7: "k \<notin> snd ` set rows \<longrightarrow> related_of rows k = []"
    by (auto simp add: related_of_def filter_empty_conv image_iff)
  have 8: "access ow' = Inr (related_of rows (owner_key ow'))"
    if mem: "ow' \<in> set (eager_load rows owners)" for ow'
  proof -
    obtain ow where "ow' = fetch_relation rows ow"
      using mem by (auto simp add: eager_load_def)
    then show ?thesis using 3 [of ow] by (simp add: k)
  qed
  show ?thesis using 1 2 3 5 6 7 8 by blast
qed

text \<open>
  Witness for C6, the test "works when some the objects have an empty result set":
  users 1 to 4, articles 3 and 5 of user 1 and article 6 of user 4.
\<close>

theorem collection_cache_access_witness:
  "cache (load 2 ''articles'') = None \<and>
   access (load 2 ''articles'') = Inl (NotYetLoaded ''articles'') \<and>
   map access (eager_load [(3, 1), (5, 1), (6, 4)] (map (\<lambda>k. load k ''articles'') [1, 2, 3, 4])) =
     [Inr [Inst 3, Inst 5], Inr [], Inr [], Inr [Inst 6]]"
proof -
  let ?rows = "[(3, 1), (5, 1), (6, 4)] :: (key \<times> key) list"
  let ?loaded = "eager_load ?rows (map (\<lambda>k. load k ''articles'') [1, 2, 3, 4])"
  note T = collection_cache_access [where ow = "load 2 ''articles''" and k = 2
      and name = "''articles''" and rows = ?rows
      and owners = "map (\<lambda>k. load k ''articles'') [1, 2, 3, 4]"]
  have c: "cache (load 2 ''articles'') = None"
    by (simp add: load_def)
  have a: "access (load 2 ''articles'') = Inl (NotYetLoaded ''articles'')"
    using T by blast
  have h: "\<forall>ow' \<in> set ?loaded. access ow' = Inr (related_of ?rows (owner_key ow'))"
    using T by blast
  have m: "map access ?loaded = map (\<lambda>ow. Inr (related_of ?rows (owner_key ow))) ?loaded"
  proof (rule map_cong [OF refl])
    fix x
    assume "x \<in> set ?loaded"
    then show "access x = Inr (related_of ?rows (owner_key x))"
      using h by blast
  qed
  have v: "map (\<lambda>ow. Inr (related_of ?rows (owner_key ow)) :: rel_error + inst list) ?loaded =
      [Inr [Inst 3, Inst 5], Inr [], Inr [], Inr [Inst 6]]"
    by code_simp
  have e: "map access ?loaded =
      [Inr [Inst 3, Inst 5], Inr [], Inr [], Inr [Inst 6]]"
    using m v by (rule trans)
  show ?thesis
    using c a e by blast
qed


end
